theory Spec2Isabelle
  imports Complex_Main "HOL-Library.Sublist"
begin

section \<open>Errors and devices\<close>

text \<open>
  The Python exceptions that the modelled functions of \<^verbatim>\<open>textcnn.py\<close> can raise.
  \<open>RuntimeError\<close> stands for an error raised inside a framework layer (an embedding
  index out of range, a sequence shorter than a convolution window).
\<close>

datatype error = ZeroDivisionError | IndexError | ValueError | AttributeError
  | RuntimeError | FileNotFoundError

datatype device = Cuda | Cpu

text \<open>
  \<^verbatim>\<open>_get_device\<close> (lines 75--77; the leading underscore is dropped): the body assigns
  the chosen device to a local variable and ends without a \<^verbatim>\<open>return\<close>, so the
  call evaluates to \<^verbatim>\<open>None\<close>. The argument says whether
  \<^verbatim>\<open>torch.cuda.is_available()\<close> holds.
\<close>

definition get_device :: "bool \<Rightarrow> device option" where
  "get_device cuda_available = (let device = (if cuda_available then Cuda else Cpu) in None)"

section \<open>Batches, model state and the forward pass\<close>

text \<open>
  A batch as the torchtext iterator yields it: \<open>text_ids\<close> (the field
  \<^verbatim>\<open>batch.text\<close>) is the matrix of token indices
  (sequence position by example), \<open>label\<close> holds one index of the label vocabulary per
  example (a natural number), \<open>place\<close> is where the tensors live.
\<close>

record batch =
  text_ids :: "nat list list"
  label :: "nat list"
  place :: device

text \<open>\<^verbatim>\<open>tensor.to(device)\<close>: \<^verbatim>\<open>None\<close> leaves the placement as it is.\<close>

definition to_device :: "device option \<Rightarrow> batch \<Rightarrow> batch" where
  "to_device d b = (case d of None \<Rightarrow> b | Some d' \<Rightarrow> b\<lparr>place := d'\<rparr>)"

text \<open>
  The mutable world of a run: the model's parameters (embedding table, convolution
  kernels, linear layer) as one value of type \<open>'p\<close>, the gradient buffers, the module's
  training flag, the optimizer's state, the random generator that dropout draws from, and
  the files written by \<^verbatim>\<open>torch.save\<close>.
\<close>

record ('p, 'g, 'o, 'r) world =
  params :: 'p
  grads :: "'g option"
  training :: bool
  opt :: 'o
  rng :: 'r
  disk :: "string \<rightharpoonup> 'p"

text \<open>
  The framework layers are parameters of the model: \<open>feats\<close> is the embedding lookup,
  the convolutions, the max-pooling and the concatenation of \<^verbatim>\<open>TextCNN.forward\<close>
  (lines 215--224), one feature row per example, or the error the layers raise;
  \<open>dropout\<close> is \<^verbatim>\<open>nn.Dropout\<close> in training mode, which draws a mask from the
  generator; \<open>fc\<close> is the linear layer on one feature row; \<open>backward\<close> is the gradient
  that autograd computes for a batch (under the mask drawn from the given generator
  state); \<open>adam_init\<close> and \<open>adam_step\<close> are \<^verbatim>\<open>optim.Adam\<close> and its \<^verbatim>\<open>step\<close>.
\<close>

record ('p, 'g, 'o, 'r) torch =
  feats :: "'p \<Rightarrow> nat list list \<Rightarrow> error + real list list"
  dropout :: "'r \<Rightarrow> real list list \<Rightarrow> real list list \<times> 'r"
  fc :: "'p \<Rightarrow> real list \<Rightarrow> real list"
  backward :: "'p \<Rightarrow> 'r \<Rightarrow> batch \<Rightarrow> 'g"
  adam_init :: "real \<Rightarrow> 'p \<Rightarrow> 'o"
  adam_step :: "'o \<Rightarrow> 'p \<Rightarrow> 'g \<Rightarrow> 'o \<times> 'p"

text \<open>
  \<^verbatim>\<open>TextCNN.forward\<close> (lines 214--228). Dropout is active only while the module is in
  training mode; in evaluation mode it is the identity and the generator is not touched.
\<close>

definition forward ::
  "('p, 'g, 'o, 'r) torch \<Rightarrow> ('p, 'g, 'o, 'r) world \<Rightarrow> nat list list
     \<Rightarrow> (error + real list list) \<times> ('p, 'g, 'o, 'r) world" where
  "forward T w x =
     (case feats T (params w) x of
        Inl e \<Rightarrow> (Inl e, w)
      | Inr fc_x \<Rightarrow>
          (let (fc_x', r') = (if training w then dropout T (rng w) fc_x else (fc_x, rng w))
           in (Inr (map (fc T (params w)) fc_x'), w\<lparr>rng := r'\<rparr>)))"

text \<open>
  \<^verbatim>\<open>F.cross_entropy(logit, target)\<close> with its default \<^verbatim>\<open>reduction='mean'\<close>: the
  negative log-likelihood of each example under the softmax of its logits, averaged over
  the examples of the batch. A batch-size mismatch and a target outside the class range
  raise. Logits and losses are real numbers here: the rounding of the framework's
  32-bit floats, their infinities and not-a-number (which the framework returns on an
  empty batch and once a logit overflows) are outside the model.
\<close>

definition nll :: "real list \<Rightarrow> int \<Rightarrow> real" where
  "nll l t = ln (sum_list (map exp l)) - l ! nat t"

definition cross_entropy :: "real list list \<Rightarrow> int list \<Rightarrow> error + real" where
  "cross_entropy logit target =
     (if length logit \<noteq> length target then Inl ValueError
      else if list_ex (\<lambda>(l, t). t < 0 \<or> int (length l) \<le> t) (zip logit target) then Inl IndexError
      else Inr (sum_list (map (\<lambda>(l, t). nll l t) (zip logit target)) / real (length target)))"

text \<open>\<^verbatim>\<open>torch.max(logit, 1)[1]\<close> on one row: the first index of a maximal logit.\<close>

fun argmax_from :: "nat \<Rightarrow> nat \<Rightarrow> real \<Rightarrow> real list \<Rightarrow> nat" where
  "argmax_from i best bv [] = best"
| "argmax_from i best bv (x # xs) =
     (if bv < x then argmax_from (Suc i) i x xs else argmax_from (Suc i) best bv xs)"

definition argmax :: "real list \<Rightarrow> nat" where
  "argmax l = (case l of [] \<Rightarrow> 0 | x # xs \<Rightarrow> argmax_from 1 0 x xs)"

text \<open>
  \<^verbatim>\<open>(result.view(target.size()).data == target.data).sum()\<close>: the number of examples
  whose predicted class is the target.
\<close>

definition count_correct :: "real list list \<Rightarrow> int list \<Rightarrow> nat" where
  "count_correct logit target =
     length (filter (\<lambda>(l, t). int (argmax l) = t) (zip logit target))"

text \<open>
  One pass over a torchtext \<^verbatim>\<open>Iterator\<close>: the dataset behind it and the batches that
  this \<^verbatim>\<open>for batch in itr\<close> yields (the iterator reshuffles for every pass).
\<close>

record 'e pass =
  dataset :: "'e list"
  batches :: "batch list"

section \<open>The evaluation and training loops\<close>

text \<open>
  The body of the loop of \<^verbatim>\<open>_valid\<close> (lines 55--67) over the remaining batches, with
  the accumulators \<open>corrects\<close> and \<open>test_loss\<close>. An exception leaves the loop with
  the world as it is at that point. \<^verbatim>\<open>target.data.sub_(1)\<close> lowers the labels of the
  batch object in place; the iterator builds its batch objects anew for every pass, so
  the lowered labels live only in \<open>target\<close>.
\<close>

fun valid_loop ::
  "('p, 'g, 'o, 'r) torch \<Rightarrow> device option \<Rightarrow> ('p, 'g, 'o, 'r) world \<Rightarrow> batch list
     \<Rightarrow> real \<Rightarrow> real \<Rightarrow> (error + real \<times> real) \<times> ('p, 'g, 'o, 'r) world" where
  "valid_loop T d w [] corrects test_loss = (Inr (corrects, test_loss), w)"
| "valid_loop T d w (b # bs) corrects test_loss =
     (let b' = to_device d b;
          txt = transpose (text_ids b');
          target = map (\<lambda>l. int l - 1) (label b')
      in case forward T w txt of
           (Inl e, w') \<Rightarrow> (Inl e, w')
         | (Inr logit, w') \<Rightarrow>
             (case cross_entropy logit target of
                Inl e \<Rightarrow> (Inl e, w')
              | Inr loss \<Rightarrow>
                  valid_loop T d w' bs
                    (corrects + real (count_correct logit target)) (test_loss + loss)))"

text \<open>
  \<^verbatim>\<open>_valid\<close> (lines 52--73): \<^verbatim>\<open>m.eval()\<close>, the loop, then the division by
  \<^verbatim>\<open>len(test_itr.dataset)\<close>, which raises on an empty dataset. The result is
  \<^verbatim>\<open>(test_loss, accuracy)\<close>, both as the exact quotients: the source computes the
  accuracy in 32-bit floats and the loss in 64-bit floats, and their rounding is outside
  the model.
\<close>

definition valid ::
  "('p, 'g, 'o, 'r) torch \<Rightarrow> device option \<Rightarrow> ('p, 'g, 'o, 'r) world \<Rightarrow> 'e pass
     \<Rightarrow> (error + real \<times> real) \<times> ('p, 'g, 'o, 'r) world" where
  "valid T d w test_itr =
     (case valid_loop T d (w\<lparr>training := False\<rparr>) (batches test_itr) 0 0 of
        (Inl e, w') \<Rightarrow> (Inl e, w')
      | (Inr (corrects, test_loss), w') \<Rightarrow>
          (let size = length (dataset test_itr)
           in if size = 0 then (Inl ZeroDivisionError, w')
              else (Inr (test_loss / real size, 100 * corrects / real size), w')))"

text \<open>
  The loop of \<^verbatim>\<open>_train\<close> (lines 30--44): as above, with
  \<^verbatim>\<open>optimizer.zero_grad()\<close> before the forward pass and \<^verbatim>\<open>loss.backward()\<close>,
  \<^verbatim>\<open>optimizer.step()\<close> after the loss.
\<close>

fun train_loop ::
  "('p, 'g, 'o, 'r) torch \<Rightarrow> device option \<Rightarrow> ('p, 'g, 'o, 'r) world \<Rightarrow> batch list
     \<Rightarrow> real \<Rightarrow> real \<Rightarrow> (error + real \<times> real) \<times> ('p, 'g, 'o, 'r) world" where
  "train_loop T d w [] corrects train_loss = (Inr (corrects, train_loss), w)"
| "train_loop T d w (b # bs) corrects train_loss =
     (let b' = to_device d b;
          txt = transpose (text_ids b');
          target = map (\<lambda>l. int l - 1) (label b');
          w0 = w\<lparr>grads := None\<rparr>
      in case forward T w0 txt of
           (Inl e, w1) \<Rightarrow> (Inl e, w1)
         | (Inr logit, w1) \<Rightarrow>
             (case cross_entropy logit target of
                Inl e \<Rightarrow> (Inl e, w1)
              | Inr loss \<Rightarrow>
                  (let g = backward T (params w1) (rng w0) b';
                       w2 = w1\<lparr>grads := Some g\<rparr>;
                       (o', p') = adam_step T (opt w2) (params w2) g;
                       w3 = w2\<lparr>opt := o', params := p'\<rparr>
                   in train_loop T d w3 bs
                        (corrects + real (count_correct logit target)) (train_loss + loss))))"

text \<open>
  \<^verbatim>\<open>_train\<close> (lines 27--50): \<^verbatim>\<open>m.train()\<close>, the loop, the two divisions,
  exact as in \<open>valid\<close>.
\<close>

definition train ::
  "('p, 'g, 'o, 'r) torch \<Rightarrow> device option \<Rightarrow> ('p, 'g, 'o, 'r) world \<Rightarrow> 'e pass
     \<Rightarrow> (error + real \<times> real) \<times> ('p, 'g, 'o, 'r) world" where
  "train T d w train_itr =
     (case train_loop T d (w\<lparr>training := True\<rparr>) (batches train_itr) 0 0 of
        (Inl e, w') \<Rightarrow> (Inl e, w')
      | (Inr (corrects, train_loss), w') \<Rightarrow>
          (let size = length (dataset train_itr)
           in if size = 0 then (Inl ZeroDivisionError, w')
              else (Inr (train_loss / real size, 100 * corrects / real size), w')))"

section \<open>The driver: \<^verbatim>\<open>metric\<close> and \<^verbatim>\<open>fit\<close>\<close>

text \<open>\<^verbatim>\<open>metric\<close> (lines 252--254); the vocabulary and the extra arguments are unused.\<close>

definition metric ::
  "('p, 'g, 'o, 'r) torch \<Rightarrow> bool \<Rightarrow> ('p, 'g, 'o, 'r) world \<Rightarrow> 'e pass
     \<Rightarrow> (error + real \<times> real) \<times> ('p, 'g, 'o, 'r) world" where
  "metric T cuda_available model test_iter =
     (let device = get_device cuda_available in valid T device model test_iter)"

text \<open>\<^verbatim>\<open>os.path.join\<close> of two components (POSIX).\<close>

definition os_path_join :: "string \<Rightarrow> string \<Rightarrow> string" where
  "os_path_join a b =
     (if b \<noteq> [] \<and> hd b = CHR ''/'' then b
      else if a = [] \<or> last a = CHR ''/'' then a @ b
      else a @ ''/'' @ b)"

text \<open>
  What one completed epoch of \<^verbatim>\<open>fit\<close> leaves behind: the four values that the
  source appends to its lists \<^verbatim>\<open>train_loss\<close>, \<^verbatim>\<open>train_acc\<close>,
  \<^verbatim>\<open>test_loss\<close>, \<^verbatim>\<open>test_acc\<close>, and in \<open>saved\<close> the path given to
  \<^verbatim>\<open>torch.save\<close> when the epoch ran lines 275--280 (\<open>None\<close> when it did not).
\<close>

record epoch_log =
  epoch :: int
  tr_loss :: real
  tr_acc :: real
  ts_loss :: real
  ts_acc :: real
  saved :: "string option"

text \<open>
  The loop of \<^verbatim>\<open>fit\<close> (lines 266--285) over the remaining epoch numbers.
  \<open>train_iter e\<close> and \<open>valid_iter e\<close> are the passes that the two iterators yield in
  epoch \<open>e\<close>. The result is the exception that ended the loop, if any, the world, and
  the log of the completed epochs. \<^verbatim>\<open>torch.save\<close> is taken to succeed: it binds the
  path to the current parameters.
\<close>

fun fit_loop ::
  "('p, 'g, 'o, 'r) torch \<Rightarrow> device option \<Rightarrow> (int \<Rightarrow> 'e pass) \<Rightarrow> (int \<Rightarrow> 'f pass) \<Rightarrow> string
     \<Rightarrow> int list \<Rightarrow> ('p, 'g, 'o, 'r) world \<Rightarrow> real \<Rightarrow> epoch_log list
     \<Rightarrow> error option \<times> ('p, 'g, 'o, 'r) world \<times> epoch_log list" where
  "fit_loop T device train_iter valid_iter checkpointdir [] model best_test_acc hist =
     (None, model, hist)"
| "fit_loop T device train_iter valid_iter checkpointdir (e # es) model best_test_acc hist =
     (case train T device model (train_iter e) of
        (Inl err, w1) \<Rightarrow> (Some err, w1, hist)
      | (Inr (trl, tra), w1) \<Rightarrow>
          (case valid T device w1 (valid_iter e) of
             (Inl err, w2) \<Rightarrow> (Some err, w2, hist)
           | (Inr (tsl, tsa), w2) \<Rightarrow>
               (if tsa > best_test_acc
                then (let path = os_path_join checkpointdir ''best_accuracy''
                      in fit_loop T device train_iter valid_iter checkpointdir es
                           (w2\<lparr>disk := (disk w2)(path \<mapsto> params w2)\<rparr>) tsa
                           (hist @ [\<lparr>epoch = e, tr_loss = trl, tr_acc = tra, ts_loss = tsl,
                                     ts_acc = tsa, saved = Some path\<rparr>]))
                else fit_loop T device train_iter valid_iter checkpointdir es w2 best_test_acc
                       (hist @ [\<lparr>epoch = e, tr_loss = trl, tr_acc = tra, ts_loss = tsl,
                                 ts_acc = tsa, saved = None\<rparr>]))))"

text \<open>
  \<^verbatim>\<open>fit\<close> (lines 256--285). \<open>lr\<close>, \<open>epochs\<close> and \<open>checkpointdir\<close> are the
  entries \<^verbatim>\<open>compute_pars['learning_rate']\<close>, \<^verbatim>\<open>compute_pars['epochs']\<close> and
  \<^verbatim>\<open>out_pars['checkpointdir']\<close>; \<^verbatim>\<open>range(1, epochs + 1)\<close> is \<open>[1..epochs]\<close>.
\<close>

definition fit ::
  "('p, 'g, 'o, 'r) torch \<Rightarrow> bool \<Rightarrow> ('p, 'g, 'o, 'r) world \<Rightarrow> (int \<Rightarrow> 'e pass) \<Rightarrow> (int \<Rightarrow> 'f pass)
     \<Rightarrow> real \<Rightarrow> int \<Rightarrow> string \<Rightarrow> error option \<times> ('p, 'g, 'o, 'r) world \<times> epoch_log list" where
  "fit T cuda_available model train_iter valid_iter lr epochs checkpointdir =
     (let device = get_device cuda_available;
          best_test_acc = - 1;
          model' = model\<lparr>opt := adam_init T lr (params model)\<rparr>
      in fit_loop T device train_iter valid_iter checkpointdir [1..epochs] model'
           best_test_acc [])"

section \<open>Splitting the dataset\<close>

text \<open>Python's \<^verbatim>\<open>round\<close>: to the nearest integer, a tie to the even one.\<close>

definition py_round :: "rat \<Rightarrow> int" where
  "py_round x =
     (let f = \<lfloor>x\<rfloor>; d = x - of_int f
      in if d < 1 / 2 then f else if 1 / 2 < d then f + 1 else if even f then f else f + 1)"

text \<open>
  \<^verbatim>\<open>split_train_valid\<close> (lines 103--110). The file system maps a path to the rows of
  the CSV file there; the row index of \<^verbatim>\<open>read_csv\<close> is the position. \<open>perm\<close> is
  the order in which the fresh \<^verbatim>\<open>RandomState\<close> makes \<^verbatim>\<open>df.sample\<close> draw the
  row positions (a permutation of the positions); the sample takes
  \<^verbatim>\<open>round(frac * len(df))\<close> of them, with the literal \<^verbatim>\<open>frac=0.7\<close> of line 106
  (the product is taken exactly here). The parameter \<open>frac'\<close> (\<^verbatim>\<open>frac\<close> in the
  source) is not used by the body.
\<close>

definition split_train_valid ::
  "(string \<rightharpoonup> 'a list) \<Rightarrow> string \<Rightarrow> string \<Rightarrow> string \<Rightarrow> rat \<Rightarrow> nat list
     \<Rightarrow> error + (string \<rightharpoonup> 'a list)" where
  "split_train_valid fs path_data path_train path_valid frac' perm =
     (case fs path_data of
        None \<Rightarrow> Inl FileNotFoundError
      | Some df \<Rightarrow>
          (let n = nat (py_round ((7 / 10) * of_nat (length df)));
               tr_index = take n perm;
               tr = map (\<lambda>i. df ! i) tr_index;
               tst = map (\<lambda>i. df ! i) (filter (\<lambda>i. i \<notin> set tr_index) [0..<length df])
           in Inr (fs(path_train \<mapsto> tr, path_valid \<mapsto> tst))))"

text \<open>
  The part of \<^verbatim>\<open>get_dataset\<close> (lines 291--299) that decides on the split and passes
  \<^verbatim>\<open>data_pars['frac']\<close> on.
\<close>

definition get_dataset_split ::
  "(string \<rightharpoonup> 'a list) \<Rightarrow> string \<Rightarrow> string \<Rightarrow> string \<Rightarrow> rat \<Rightarrow> bool \<Rightarrow> nat list
     \<Rightarrow> error + (string \<rightharpoonup> 'a list)" where
  "get_dataset_split fs path train_path valid_path frac' split_if_exists perm =
     (let train_exists = (fs train_path \<noteq> None);
          valid_exists = (fs valid_path \<noteq> None)
      in if \<not> (train_exists \<and> valid_exists) \<or> split_if_exists
         then split_train_valid fs path train_path valid_path frac' perm
         else Inr fs)"

section \<open>Loading the configuration\<close>

text \<open>
  The value that \<^verbatim>\<open>json.load\<close> returns; \<open>JObj\<close> is a Python dictionary, as a list
  of its items with each key once.
\<close>

datatype json = JNull | JBool bool | JInt int | JFloat real | JStr string
  | JArr "json list" | JObj "(string \<times> json) list"

text \<open>
  \<^verbatim>\<open>v.get(k, default)\<close>: only a dictionary has the method; on \<^verbatim>\<open>None\<close> and
  on every other JSON value the attribute lookup raises.
\<close>

definition py_get :: "json \<Rightarrow> string \<Rightarrow> json \<Rightarrow> error + json" where
  "py_get v k dflt =
     (case v of
        JObj kvs \<Rightarrow> Inr (case map_of kvs k of None \<Rightarrow> dflt | Some x \<Rightarrow> x)
      | _ \<Rightarrow> Inl AttributeError)"

text \<open>
  \<^verbatim>\<open>get_params\<close> (lines 236--249). \<open>read_json\<close> is \<^verbatim>\<open>open\<close> followed by
  \<^verbatim>\<open>json.load\<close>; \<open>config_file\<close> is the result of \<^verbatim>\<open>get_config_file()\<close>.
\<close>

definition get_params ::
  "(string \<Rightarrow> error + json) \<Rightarrow> string \<Rightarrow> string option \<Rightarrow> bool
     \<Rightarrow> error + json \<times> json \<times> json \<times> json" where
  "get_params read_json config_file path test =
     (let path' = (case path of None \<Rightarrow> config_file | Some p \<Rightarrow> p)
      in case read_json path' of
           Inl e \<Rightarrow> Inl e
         | Inr config \<Rightarrow>
             (case (if test then py_get config ''test'' JNull else py_get config ''prod'' JNull) of
                Inl e \<Rightarrow> Inl e
              | Inr config' \<Rightarrow>
                  (case py_get config' ''model_pars'' (JObj []) of
                     Inl e \<Rightarrow> Inl e
                   | Inr model_pars \<Rightarrow>
                       (case py_get config' ''data_pars'' (JObj []) of
                          Inl e \<Rightarrow> Inl e
                        | Inr data_pars \<Rightarrow>
                            (case py_get config' ''compute_pars'' (JObj []) of
                               Inl e \<Rightarrow> Inl e
                             | Inr compute_pars \<Rightarrow>
                                 (case py_get config' ''out_pars'' (JObj []) of
                                    Inl e \<Rightarrow> Inl e
                                  | Inr out_pars \<Rightarrow>
                                      Inr (model_pars, data_pars, compute_pars, out_pars)))))))"

section \<open>The text normalizer\<close>

text \<open>
  A Python string is a sequence of Unicode code points; a code point is a natural number
  here, and \<open>lit\<close> turns an ASCII literal into its code points. The backslash is 92.
\<close>

type_synonym pystr = "nat list"

definition lit :: "string \<Rightarrow> pystr" where
  "lit s = map of_char s"

text \<open>The characters that the class \<^verbatim>\<open>[^A-Za-z0-9(),!?\'\`]\<close> does not match.\<close>

definition whitelisted :: "nat \<Rightarrow> bool" where
  "whitelisted c \<longleftrightarrow>
     (65 \<le> c \<and> c \<le> 90) \<or> (97 \<le> c \<and> c \<le> 122) \<or> (48 \<le> c \<and> c \<le> 57)
     \<or> c \<in> set (lit ''(),!?'`'')"

text \<open>
  Whitespace as \<^verbatim>\<open>\s\<close> (on a \<^verbatim>\<open>str\<close> pattern) and \<^verbatim>\<open>str.strip()\<close> see it:
  the ASCII separators and the Unicode spaces.
\<close>

definition is_space :: "nat \<Rightarrow> bool" where
  "is_space c \<longleftrightarrow>
     (9 \<le> c \<and> c \<le> 13) \<or> (28 \<le> c \<and> c \<le> 32) \<or> c = 133 \<or> c = 160 \<or> c = 5760
     \<or> (8192 \<le> c \<and> c \<le> 8202) \<or> c = 8232 \<or> c = 8233 \<or> c = 8239 \<or> c = 8287 \<or> c = 12288"

text \<open>Line 118: every character outside the class becomes a space.\<close>

definition sub_class :: "pystr \<Rightarrow> pystr" where
  "sub_class s = map (\<lambda>c. if whitelisted c then c else 32) s"

text \<open>
  \<^verbatim>\<open>re.sub\<close> of a literal, non-empty pattern \<open>p\<close> by the string \<open>r\<close>: the scan
  goes from the left, replaces a match and continues behind it.
\<close>

fun sub_lit :: "pystr \<Rightarrow> pystr \<Rightarrow> pystr \<Rightarrow> pystr" where
  "sub_lit p r [] = []"
| "sub_lit p r (c # cs) =
     (if p \<noteq> [] \<and> prefix p (c # cs) then r @ sub_lit p r (drop (length p - 1) cs)
      else c # sub_lit p r cs)"

text \<open>
  Line 130, \<^verbatim>\<open>re.sub(r"\s{2,}", " ", string)\<close>: a maximal run of two or more
  whitespace characters becomes one space; a single whitespace character stays.
\<close>

function sub_spaces :: "pystr \<Rightarrow> pystr" where
  "sub_spaces [] = []"
| "sub_spaces (c # cs) =
     (if is_space c \<and> cs \<noteq> [] \<and> is_space (hd cs) then 32 # sub_spaces (dropWhile is_space cs)
      else c # sub_spaces cs)"
  by pat_completeness auto
termination
  by (relation "measure length") (auto simp: length_dropWhile_le le_imp_less_Suc)

text \<open>\<^verbatim>\<open>str.strip()\<close>: whitespace is removed at both ends.\<close>

definition strip :: "pystr \<Rightarrow> pystr" where
  "strip s = rev (dropWhile is_space (rev (dropWhile is_space s)))"

text \<open>
  \<^verbatim>\<open>clean_str\<close> (lines 113--131). In a replacement template \<^verbatim>\<open>re.sub\<close> keeps a
  backslash before a character that is not a letter or digit, so the templates of lines
  127--129 are a space, a backslash, the mark and a space.
\<close>

definition clean_str :: "pystr \<Rightarrow> pystr" where
  "clean_str string =
     (let string = sub_class string;
          string = sub_lit (lit '''s'') (lit '' 's'') string;
          string = sub_lit (lit '''ve'') (lit '' 've'') string;
          string = sub_lit (lit ''n't'') (lit '' n't'') string;
          string = sub_lit (lit '''re'') (lit '' 're'') string;
          string = sub_lit (lit '''d'') (lit '' 'd'') string;
          string = sub_lit (lit '''ll'') (lit '' 'll'') string;
          string = sub_lit (lit '','') (lit '' , '') string;
          string = sub_lit (lit ''!'') (lit '' ! '') string;
          string = sub_lit (lit ''('') (lit '' '' @ [92] @ lit ''( '') string;
          string = sub_lit (lit '')'') (lit '' '' @ [92] @ lit '') '') string;
          string = sub_lit (lit ''?'') (lit '' '' @ [92] @ lit ''? '') string;
          string = sub_spaces string
      in strip string)"

section \<open>Tokens of a normalized string\<close>

text \<open>
  The pieces of a string between its spaces (empty pieces included), the non-empty
  pieces, and the pieces joined again by single spaces.
\<close>

fun splitsp :: "pystr \<Rightarrow> pystr list" where
  "splitsp [] = [[]]"
| "splitsp (c # cs) =
     (if c = 32 then [] # splitsp cs else (c # hd (splitsp cs)) # tl (splitsp cs))"

definition tokens :: "pystr \<Rightarrow> pystr list" where
  "tokens s = filter (\<lambda>w. w \<noteq> []) (splitsp s)"

fun unwords :: "pystr list \<Rightarrow> pystr" where
  "unwords [] = []"
| "unwords [w] = w"
| "unwords (w # v # ws) = w @ 32 # unwords (v # ws)"

text \<open>A string whose only whitespace character is the space.\<close>

definition plain :: "pystr \<Rightarrow> bool" where
  "plain s \<longleftrightarrow> (\<forall>c\<in>set s. is_space c \<longrightarrow> c = 32)"

text \<open>The right half of \<^verbatim>\<open>strip\<close>.\<close>

definition trimr :: "pystr \<Rightarrow> pystr" where
  "trimr s = rev (dropWhile is_space (rev s))"

text \<open>
  The pattern \<open>p\<close> occurs nowhere in \<open>w\<close>; it occurs at most at the start of \<open>w\<close>.
\<close>

definition no_occ :: "pystr \<Rightarrow> pystr \<Rightarrow> bool" where
  "no_occ p w \<longleftrightarrow> (\<forall>k. \<not> prefix p (drop k w))"

definition only_head :: "pystr \<Rightarrow> pystr \<Rightarrow> bool" where
  "only_head p w \<longleftrightarrow> (\<forall>k. 0 < k \<longrightarrow> \<not> prefix p (drop k w))"

text \<open>A transformation that works on each side of a space separately.\<close>

definition wordwise :: "(pystr \<Rightarrow> pystr) \<Rightarrow> bool" where
  "wordwise f \<longleftrightarrow> f [] = [] \<and> (\<forall>u v. f (u @ 32 # v) = f u @ 32 # f v)"

text \<open>The twelve substitutions of lines 118--129, before the whitespace is normalized.\<close>

definition subs :: "pystr \<Rightarrow> pystr" where
  "subs s =
     sub_lit (lit ''?'') (lit '' '' @ [92] @ lit ''? '')
      (sub_lit (lit '')'') (lit '' '' @ [92] @ lit '') '')
        (sub_lit (lit ''('') (lit '' '' @ [92] @ lit ''( '')
          (sub_lit (lit ''!'') (lit '' ! '')
            (sub_lit (lit '','') (lit '' , '')
              (sub_lit (lit '''ll'') (lit '' 'll'')
                (sub_lit (lit '''d'') (lit '' 'd'')
                  (sub_lit (lit '''re'') (lit '' 're'')
                    (sub_lit (lit ''n't'') (lit '' n't'')
                      (sub_lit (lit '''ve'') (lit '' 've'')
                        (sub_lit (lit '''s'') (lit '' 's'') (sub_class s)))))))))))"

text \<open>
  A token that no substitution has replaced yet: whitelisted characters only, each
  pattern of \<open>ps\<close> at most at its start, none of the marks \<open>cs\<close>. A settled token is
  one of the replaced marks \<open>as\<close> or such a token.
\<close>

definition raw :: "pystr list \<Rightarrow> nat list \<Rightarrow> pystr \<Rightarrow> bool" where
  "raw ps cs w \<longleftrightarrow>
     (\<forall>c\<in>set w. whitelisted c) \<and> (\<forall>p\<in>set ps. only_head p w) \<and> set w \<inter> set cs = {}"

definition settled :: "pystr list \<Rightarrow> pystr list \<Rightarrow> nat list \<Rightarrow> pystr \<Rightarrow> bool" where
  "settled as ps cs w \<longleftrightarrow> w \<in> set as \<or> raw ps cs w"

abbreviation (input) contractions :: "pystr list" where
  "contractions \<equiv>
     [[39, 108, 108], [39, 100], [39, 114, 101], [110, 39, 116], [39, 118, 101], [39, 115]]"

abbreviation (input) atoms :: "pystr list" where
  "atoms \<equiv> [[92, 63], [92, 41], [92, 40], [33], [44]]"

section \<open>Auxiliary definitions for the statements\<close>

text \<open>
  What holds of two adjacent characters \<open>x\<close>, \<open>y\<close> of a normalized string: they are
  not both whitespace, a mark \<^verbatim>\<open>, ! ( ) ?\<close> is followed by a space, and
  \<^verbatim>\<open>,\<close> and \<^verbatim>\<open>!\<close> are preceded by one.
\<close>

definition adjacent_ok :: "nat \<Rightarrow> nat \<Rightarrow> bool" where
  "adjacent_ok x y \<longleftrightarrow>
     \<not> (is_space x \<and> is_space y)
     \<and> (x \<in> set (lit '',!()?'') \<longrightarrow> y = 32)
     \<and> (y \<in> set (lit '',!'') \<longrightarrow> x = 32)"


text \<open>
  A small concrete network for evaluating the loops: one parameter \<open>p\<close>, one feature per
  example, dropout that zeroes the features on odd generator states, logits \<open>[p * v, 0]\<close>,
  and an optimizer step that moves \<open>p\<close> from \<open>0\<close> to \<open>-1\<close> and then to its absolute value.
\<close>

definition toy_torch :: "(real, unit, unit, nat) torch" where
  "toy_torch =
     \<lparr>feats = (\<lambda>p x. Inr (map (\<lambda>row. [1]) x)),
      dropout = (\<lambda>r v. (map (map (\<lambda>x. if even r then x else 0)) v, Suc r)),
      fc = (\<lambda>p v. [p * sum_list v, 0]),
      backward = (\<lambda>p r b. ()),
      adam_init = (\<lambda>lr p. ()),
      adam_step = (\<lambda>st p g. (st, if p = 0 then - 1 else \<bar>p\<bar>))\<rparr>"

definition toy_world :: "real \<Rightarrow> nat \<Rightarrow> (real, unit, unit, nat) world" where
  "toy_world p r =
     \<lparr>params = p, grads = None, training = False, opt = (), rng = r, disk = Map.empty\<rparr>"

text \<open>A pass that yields all examples, given by their label indices, in one batch.\<close>

definition toy_pass :: "nat list \<Rightarrow> nat pass" where
  "toy_pass labels =
     \<lparr>dataset = labels,
      batches = [\<lparr>text_ids = [map (\<lambda>l. 0) labels], label = labels, place = Cpu\<rparr>]\<rparr>"



section \<open>The evaluation loop is a pure measurement\<close>

lemma forward_eval: "\<not> training w \<Longrightarrow> snd (forward T w x) = w"
  by (auto simp: forward_def split: sum.splits)

lemma forward_eval_fst:
  "\<not> training w1 \<Longrightarrow> \<not> training w2 \<Longrightarrow> params w1 = params w2
     \<Longrightarrow> fst (forward T w1 x) = fst (forward T w2 x)"
  by (auto simp: forward_def split: sum.splits)

lemma to_device_fields [simp]:
  "text_ids (to_device d b) = text_ids b" "label (to_device d b) = label b"
  by (auto simp: to_device_def split: option.splits)

lemma valid_loop_frame: "\<not> training w \<Longrightarrow> snd (valid_loop T d w bs c l) = w"
proof (induction bs arbitrary: c l)
  case Nil
  then show ?case by simp
next
  case (Cons b bs)
  obtain r w' where fw: "forward T w (transpose (text_ids b)) = (r, w')"
    by (cases "forward T w (transpose (text_ids b))")
  with Cons.prems forward_eval [of w T "transpose (text_ids b)"] have w': "w' = w" by simp
  show ?case using Cons.IH [OF Cons.prems] fw w'
    by (auto simp: Let_def split: sum.splits)
qed

lemma valid_loop_det:
  "\<not> training w1 \<Longrightarrow> \<not> training w2 \<Longrightarrow> params w1 = params w2
     \<Longrightarrow> fst (valid_loop T d1 w1 bs c l) = fst (valid_loop T d2 w2 bs c l)"
proof (induction bs arbitrary: c l)
  case Nil
  then show ?case by simp
next
  case (Cons b bs)
  let ?x = "transpose (text_ids b)"
  obtain r1 w1' where f1: "forward T w1 ?x = (r1, w1')" by (cases "forward T w1 ?x")
  obtain r2 w2' where f2: "forward T w2 ?x = (r2, w2')" by (cases "forward T w2 ?x")
  from f1 Cons.prems forward_eval [of w1 T ?x] have e1: "w1' = w1" by simp
  from f2 Cons.prems forward_eval [of w2 T ?x] have e2: "w2' = w2" by simp
  from f1 f2 forward_eval_fst [OF Cons.prems, of T ?x] have r: "r1 = r2" by simp
  show ?case using Cons.IH [OF Cons.prems] f1 f2 e1 e2 r
    by (auto simp: Let_def split: sum.splits)
qed

lemma valid_world: "snd (valid T d w itr) = w\<lparr>training := False\<rparr>"
proof -
  let ?w = "w\<lparr>training := False\<rparr>"
  have "snd (valid_loop T d ?w (batches itr) 0 0) = ?w"
    by (rule valid_loop_frame) simp
  then show ?thesis
    by (auto simp: valid_def Let_def split: prod.splits sum.splits)
qed

text \<open>
  Claim C7. Running \<^verbatim>\<open>_valid\<close> leaves the model parameters unchanged, whether it
  returns or raises: no gradient is computed (the gradient buffers stay as they were), the
  optimizer state, the random generator and the files are untouched; the only change to
  the world is the training flag, which \<^verbatim>\<open>m.eval()\<close> clears.
\<close>

theorem valid_leaves_parameters:
  "params (snd (valid T d w itr)) = params w
   \<and> grads (snd (valid T d w itr)) = grads w
   \<and> opt (snd (valid T d w itr)) = opt w
   \<and> rng (snd (valid T d w itr)) = rng w
   \<and> disk (snd (valid T d w itr)) = disk w
   \<and> training (snd (valid T d w itr)) = False"
  by (simp add: valid_world)

text \<open>
  Claim C6. For equal model parameters and the same pass of evaluation batches, two runs
  of \<^verbatim>\<open>_valid\<close> give the same outcome (the same loss and accuracy, or the same
  exception), whatever the training flag, the gradient buffers, the optimizer state, the
  random generator and the device argument are at the start of each run; and so do two
  runs of \<^verbatim>\<open>metric\<close>.
\<close>

theorem valid_deterministic:
  assumes "params w1 = params w2"
  shows "fst (valid T d1 w1 itr) = fst (valid T d2 w2 itr)
         \<and> fst (metric T a w1 itr) = fst (metric T b w2 itr)"
proof -
  have *: "fst (valid T d1 w1 itr) = fst (valid T d2 w2 itr)" for d1 d2
  proof -
    let ?w1 = "w1\<lparr>training := False\<rparr>" and ?w2 = "w2\<lparr>training := False\<rparr>"
    have "fst (valid_loop T d1 ?w1 (batches itr) 0 0) = fst (valid_loop T d2 ?w2 (batches itr) 0 0)"
      by (rule valid_loop_det) (simp_all add: assms)
    then show ?thesis
      by (auto simp: valid_def Let_def split: prod.splits sum.splits)
  qed
  show ?thesis using * by (simp add: metric_def)
qed

lemma argmax_toy [simp]: "argmax [0, 0] = 0" "argmax [- 1, 0] = 1" "argmax [1, 0] = 0"
  by (simp_all add: argmax_def)

lemma nll_toy: "nll [0, 0] 0 = ln 2" "nll [0, 0] 1 = ln 2"
  by (simp_all add: nll_def)

lemma toy_valid_value:
  "fst (valid toy_torch d ((toy_world 0 r)\<lparr>training := tr\<rparr>) (toy_pass [1, 2])) = Inr (ln 2 / 2, 50)"
  by (simp add: valid_def toy_pass_def toy_world_def toy_torch_def forward_def
      cross_entropy_def count_correct_def nll_toy Let_def)

theorem valid_deterministic_witness:
  "params (toy_world 0 0) = params ((toy_world 0 1)\<lparr>training := True\<rparr>)
   \<and> fst (valid toy_torch None (toy_world 0 0) (toy_pass [1, 2])) = Inr (ln 2 / 2, 50)
   \<and> fst (valid toy_torch (Some Cuda) ((toy_world 0 1)\<lparr>training := True\<rparr>) (toy_pass [1, 2]))
       = Inr (ln 2 / 2, 50)
   \<and> fst (metric toy_torch True (toy_world 0 0) (toy_pass [1, 2]))
       = fst (metric toy_torch False ((toy_world 0 1)\<lparr>training := True\<rparr>) (toy_pass [1, 2]))"
proof -
  have p: "params (toy_world 0 0) = params ((toy_world 0 1)\<lparr>training := True\<rparr>)"
    by (simp add: toy_world_def)
  have v: "fst (valid toy_torch (Some Cuda) ((toy_world 0 1)\<lparr>training := True\<rparr>) (toy_pass [1, 2]))
       = Inr (ln 2 / 2, 50)"
    by (rule toy_valid_value)
  from valid_deterministic [OF p, of toy_torch None "toy_pass [1, 2]" "Some Cuda" True False] p v
  show ?thesis by simp
qed

section \<open>The device\<close>

text \<open>
  Claim C9. \<^verbatim>\<open>_get_device\<close> returns \<^verbatim>\<open>None\<close> whether or not a GPU is available,
  so \<^verbatim>\<open>metric\<close> runs \<^verbatim>\<open>_valid\<close> with the device \<^verbatim>\<open>None\<close>, and neither
  \<^verbatim>\<open>metric\<close> nor \<^verbatim>\<open>fit\<close> depends on the availability of a GPU.
\<close>

theorem get_device_is_None:
  "get_device cuda_available = None
   \<and> metric T cuda_available w itr = valid T None w itr
   \<and> metric T cuda_available w itr = metric T cuda_available' w itr
   \<and> fit T cuda_available w tr va lr epochs ck = fit T cuda_available' w tr va lr epochs ck"
  by (simp add: get_device_def metric_def fit_def)

section \<open>The exact loss and accuracy\<close>

text \<open>
  Facts about the exact quotients of the model, used for the checkpoint rule below: the
  counted correct predictions lie between zero and the number of examples seen, and the
  accumulated loss is not negative. They are statements about real numbers, not about the
  floating-point values that the source returns.
\<close>

lemma le_sum_list_real:
  fixes xs :: "real list"
  shows "(\<And>x. x \<in> set xs \<Longrightarrow> 0 \<le> x) \<Longrightarrow> y \<in> set xs \<Longrightarrow> y \<le> sum_list xs"
proof (induction xs)
  case Nil
  then show ?case by simp
next
  case (Cons a xs)
  have nn: "0 \<le> sum_list xs" by (rule sum_list_nonneg) (simp add: Cons.prems(1))
  have a0: "0 \<le> a" by (simp add: Cons.prems(1))
  show ?case
  proof (cases "y = a")
    case True
    with nn show ?thesis by simp
  next
    case False
    with Cons.prems(2) have "y \<in> set xs" by simp
    then have "y \<le> sum_list xs" using Cons.IH Cons.prems(1) by simp
    with a0 show ?thesis by simp
  qed
qed

lemma nll_nonneg:
  assumes "0 \<le> t" and "t < int (length l)"
  shows "0 \<le> nll l t"
proof -
  have i: "nat t < length l" using assms by simp
  then have "exp (l ! nat t) \<in> set (map exp l)" by simp
  then have "exp (l ! nat t) \<le> sum_list (map exp l)"
    by (rule le_sum_list_real [rotated]) auto
  then have "ln (exp (l ! nat t)) \<le> ln (sum_list (map exp l))"
    by (intro ln_mono) simp_all
  then show ?thesis by (simp add: nll_def)
qed

lemma cross_entropy_nonneg:
  assumes "cross_entropy logit target = Inr loss"
  shows "0 \<le> loss"
proof -
  from assms have ok: "\<not> list_ex (\<lambda>(l, t). t < 0 \<or> int (length l) \<le> t) (zip logit target)"
    and loss: "loss = sum_list (map (\<lambda>(l, t). nll l t) (zip logit target)) / real (length target)"
    by (auto simp: cross_entropy_def split: if_splits)
  have "0 \<le> sum_list (map (\<lambda>(l, t). nll l t) (zip logit target))"
  proof (rule sum_list_nonneg)
    fix x assume "x \<in> set (map (\<lambda>(l, t). nll l t) (zip logit target))"
    then obtain l t where lt: "(l, t) \<in> set (zip logit target)" and x: "x = nll l t" by auto
    from ok lt have "0 \<le> t" "t < int (length l)" by (auto simp: list_ex_iff)
    then show "0 \<le> x" unfolding x by (rule nll_nonneg)
  qed
  then show ?thesis by (simp add: loss)
qed

lemma count_correct_le: "count_correct logit target \<le> length target"
proof -
  have "count_correct logit target \<le> length (zip logit target)"
    unfolding count_correct_def by (rule length_filter_le)
  then show ?thesis by simp
qed


lemma train_loop_bounds:
  "train_loop T d w bs c l = (Inr (c', l'), w')
     \<Longrightarrow> c \<le> c' \<and> c' \<le> c + real (sum_list (map (\<lambda>b. length (label b)) bs)) \<and> l \<le> l'"
proof (induction bs arbitrary: w c l)
  case Nil
  then show ?case by simp
next
  case (Cons b bs)
  let ?x = "transpose (text_ids b)" and ?t = "map (\<lambda>l. int l - 1) (label b)"
  from Cons.prems obtain logit loss w3 where
    ce: "cross_entropy logit ?t = Inr loss"
    and rec: "train_loop T d w3 bs (c + real (count_correct logit ?t)) (l + loss) = (Inr (c', l'), w')"
    by (auto simp: Let_def split: prod.splits sum.splits)
  from Cons.IH [OF rec] have
    ih: "c + real (count_correct logit ?t) \<le> c'"
        "c' \<le> c + real (count_correct logit ?t) + real (sum_list (map (\<lambda>b. length (label b)) bs))"
        "l + loss \<le> l'"
    by simp_all
  have cc: "count_correct logit ?t \<le> length (label b)"
    using count_correct_le [of logit ?t] by simp
  from cross_entropy_nonneg [OF ce] ih cc show ?case by simp
qed


lemma train_result:
  assumes "fst (train T d w itr) = Inr (loss, acc)"
  shows "0 \<le> loss \<and> 0 \<le> acc
    \<and> acc \<le> 100 * real (sum_list (map (\<lambda>b. length (label b)) (batches itr))) / real (length (dataset itr))"
proof -
  from assms obtain c l w' where
    lp: "train_loop T d (w\<lparr>training := True\<rparr>) (batches itr) 0 0 = (Inr (c, l), w')"
    and sz: "length (dataset itr) \<noteq> 0"
    and res: "loss = l / real (length (dataset itr))" "acc = 100 * c / real (length (dataset itr))"
    by (auto simp: train_def Let_def split: prod.splits sum.splits if_splits)
  from train_loop_bounds [OF lp] have "0 \<le> c"
    "c \<le> real (sum_list (map (\<lambda>b. length (label b)) (batches itr)))" "0 \<le> l"
    by simp_all
  then show ?thesis using sz by (simp add: res divide_right_mono)
qed

lemma toy_train_value:
  "fst (train toy_torch None (toy_world 0 0) (toy_pass [1, 2])) = Inr (ln 2 / 2, 50)"
  by (simp add: train_def toy_pass_def toy_world_def toy_torch_def forward_def
      cross_entropy_def count_correct_def to_device_def nll_toy Let_def)

text \<open>
  Claim C2, evaluated on a split of two examples that arrive in one batch, under a model
  that gives both classes the logit 0 (each example then has the cross-entropy loss
  \<open>ln 2\<close>): \<^verbatim>\<open>_train\<close> reports the loss \<open>ln 2 / 2\<close>, the batch mean divided once more
  by the number of examples, where the total of the per-example losses divided by the
  number of examples is \<open>ln 2\<close>. The reported accuracy is 50, one correct of two.
\<close>

theorem train_loss_batch_means:
  "fst (train toy_torch None (toy_world 0 0) (toy_pass [1, 2])) = Inr (ln 2 / 2, 50)
   \<and> (nll [0, 0] 0 + nll [0, 0] 1) / 2 = ln 2
   \<and> ln 2 / 2 \<noteq> (ln 2 :: real)"
  using toy_train_value nll_toy by simp

section \<open>The split\<close>

text \<open>
  Claim C3, evaluated on ten rows with the configured fraction one half:
  \<^verbatim>\<open>get_dataset\<close> hands the fraction to \<^verbatim>\<open>split_train_valid\<close>, which samples
  with the literal 0.7, so the training file gets seven rows (not five) and the
  validation file the other three.
\<close>

theorem split_ignores_frac:
  "(case get_dataset_split (Map.empty(''data.csv'' \<mapsto> [0, 1, 2, 3, 4, 5, 6, 7, 8, 9 :: nat]))
           ''data.csv'' ''train.csv'' ''valid.csv'' (1 / 2) False [0, 1, 2, 3, 4, 5, 6, 7, 8, 9] of
      Inl e \<Rightarrow> False
    | Inr fs \<Rightarrow> fs ''train.csv'' = Some [0, 1, 2, 3, 4, 5, 6] \<and> fs ''valid.csv'' = Some [7, 8, 9])"
  by (simp add: get_dataset_split_def split_train_valid_def py_round_def Let_def upt_rec)

theorem split_ignores_frac_witness:
  "\<exists>fs. get_dataset_split (Map.empty(''data.csv'' \<mapsto> [0, 1, 2, 3, 4, 5, 6, 7, 8, 9 :: nat]))
           ''data.csv'' ''train.csv'' ''valid.csv'' (1 / 2) False [0, 1, 2, 3, 4, 5, 6, 7, 8, 9] = Inr fs
        \<and> map_option length (fs ''train.csv'') = Some 7
        \<and> map_option length (fs ''valid.csv'') = Some 3"
  using split_ignores_frac by (auto split: sum.splits)

section \<open>The configuration\<close>

text \<open>
  Claim C10. Once the document is read: if it does not bind the selected profile key
  (\<open>test\<close> when the flag is set, else \<open>prod\<close>), \<^verbatim>\<open>get_params\<close> raises
  \<^verbatim>\<open>AttributeError\<close>; if it binds the key to a dictionary, \<^verbatim>\<open>get_params\<close> returns
  the four option groups, an absent group as the empty dictionary.
\<close>

theorem get_params_profile:
  assumes "read_json (case path of None \<Rightarrow> config_file | Some p \<Rightarrow> p) = Inr doc"
  shows "((\<forall>kvs. doc = JObj kvs \<longrightarrow> map_of kvs (if test then ''test'' else ''prod'') = None)
            \<longrightarrow> get_params read_json config_file path test = Inl AttributeError)
       \<and> (\<forall>kvs groups. doc = JObj kvs
              \<and> map_of kvs (if test then ''test'' else ''prod'') = Some (JObj groups)
            \<longrightarrow> get_params read_json config_file path test =
                  Inr (case map_of groups ''model_pars'' of None \<Rightarrow> JObj [] | Some v \<Rightarrow> v,
                       case map_of groups ''data_pars'' of None \<Rightarrow> JObj [] | Some v \<Rightarrow> v,
                       case map_of groups ''compute_pars'' of None \<Rightarrow> JObj [] | Some v \<Rightarrow> v,
                       case map_of groups ''out_pars'' of None \<Rightarrow> JObj [] | Some v \<Rightarrow> v))"
  using assms by (cases doc) (auto simp: get_params_def py_get_def)

theorem get_params_profile_witness:
  "get_params (\<lambda>p. Inr (JObj [(''prod'', JObj [(''model_pars'', JObj [(''num_class'', JInt 2)])])]))
      ''textcnn.json'' None True = Inl AttributeError
   \<and> get_params (\<lambda>p. Inr (JObj [(''prod'', JObj [(''model_pars'', JObj [(''num_class'', JInt 2)])])]))
      ''textcnn.json'' None False
     = Inr (JObj [(''num_class'', JInt 2)], JObj [], JObj [], JObj [])"
  using get_params_profile [where read_json = "\<lambda>p. Inr (JObj [(''prod'', JObj [(''model_pars'', JObj [(''num_class'', JInt 2)])])])"
      and path = None and config_file = "''textcnn.json''" and test = True]
    get_params_profile [where read_json = "\<lambda>p. Inr (JObj [(''prod'', JObj [(''model_pars'', JObj [(''num_class'', JInt 2)])])])"
      and path = None and config_file = "''textcnn.json''" and test = False]
  by simp

section \<open>The checkpoint\<close>










section \<open>The text normalizer is idempotent\<close>

lemma is_space_32 [simp]: "is_space 32"
  by (simp add: is_space_def)

lemma splitsp_nonempty [simp]: "splitsp s \<noteq> []"
  by (induction s) auto

lemma splitsp_append_sp: "splitsp (a @ 32 # b) = splitsp a @ splitsp b"
  by (induction a) (auto simp: hd_append)

lemma splitsp_no_sp: "32 \<notin> set w \<Longrightarrow> splitsp w = [w]"
  by (induction w) auto

lemma splitsp_elems: "u \<in> set (splitsp s) \<Longrightarrow> 32 \<notin> set u"
proof (induction s arbitrary: u)
  case Nil
  then show ?case by simp
next
  case (Cons c cs)
  show ?case
  proof (cases "c = 32")
    case True
    with Cons show ?thesis by auto
  next
    case False
    with Cons.prems have "u = c # hd (splitsp cs) \<or> u \<in> set (tl (splitsp cs))" by simp
    then show ?thesis
    proof
      assume "u = c # hd (splitsp cs)"
      moreover have "32 \<notin> set (hd (splitsp cs))" by (rule Cons.IH) simp
      ultimately show ?thesis using False by simp
    next
      assume "u \<in> set (tl (splitsp cs))"
      then have "u \<in> set (splitsp cs)" by (rule list.set_sel(2) [rotated]) simp
      then show ?thesis by (rule Cons.IH)
    qed
  qed
qed

lemma tokens_Nil [simp]: "tokens [] = []"
  by (simp add: tokens_def)

lemma tokens_sp [simp]: "tokens (32 # s) = tokens s"
  by (simp add: tokens_def)

lemma tokens_append_sp: "tokens (a @ 32 # b) = tokens a @ tokens b"
  by (simp add: tokens_def splitsp_append_sp)

lemma tokens_word: "32 \<notin> set w \<Longrightarrow> w \<noteq> [] \<Longrightarrow> tokens w = [w]"
  by (simp add: tokens_def splitsp_no_sp)

lemma tokens_elems: "u \<in> set (tokens s) \<Longrightarrow> 32 \<notin> set u \<and> u \<noteq> []"
  by (auto simp: tokens_def dest: splitsp_elems)

lemma tokens_Cons_nsp:
  "c \<noteq> 32 \<Longrightarrow> tokens (c # cs) = (c # hd (splitsp cs)) # filter (\<lambda>w. w \<noteq> []) (tl (splitsp cs))"
  by (simp add: tokens_def)

lemma hd_splitsp: "hd (splitsp s) = takeWhile (\<lambda>c. c \<noteq> 32) s"
  by (induction s) auto

lemma unwords_Cons: "unwords (w # ws) = (if ws = [] then w else w @ 32 # unwords ws)"
  by (cases ws) auto

lemma unwords_Nil_iff: "(\<forall>w\<in>set ws. w \<noteq> []) \<Longrightarrow> unwords ws = [] \<longleftrightarrow> ws = []"
  by (cases ws) (auto simp: unwords_Cons)

lemma tokens_unwords:
  "(\<forall>w\<in>set ws. w \<noteq> [] \<and> 32 \<notin> set w) \<Longrightarrow> tokens (unwords ws) = ws"
proof (induction ws)
  case Nil
  then show ?case by simp
next
  case (Cons w ws)
  then show ?case
    by (cases ws) (auto simp: tokens_append_sp tokens_word)
qed

lemma trimr_Nil [simp]: "trimr [] = []"
  by (simp add: trimr_def)

lemma trimr_Cons: "trimr (a # y) = (if trimr y = [] \<and> is_space a then [] else a # trimr y)"
  by (auto simp: trimr_def dropWhile_append)

lemma strip_trimr: "strip s = trimr (dropWhile is_space s)"
  by (simp add: strip_def trimr_def)

lemma plain_Cons [simp]: "plain (c # cs) \<longleftrightarrow> (is_space c \<longrightarrow> c = 32) \<and> plain cs"
  by (auto simp: plain_def)

lemma plain_Nil [simp]: "plain []"
  by (simp add: plain_def)

lemma plain_dropWhile: "plain s \<Longrightarrow> plain (dropWhile P s)"
  by (auto simp: plain_def dest: set_dropWhileD)

lemma tokens_dropWhile: "plain s \<Longrightarrow> tokens (dropWhile is_space s) = tokens s"
  by (induction s) auto

lemma dropWhile_hd: "dropWhile P s \<noteq> [] \<Longrightarrow> \<not> P (hd (dropWhile P s))"
  using hd_dropWhile by blast

lemma tokens_hd_sp: "cs \<noteq> [] \<Longrightarrow> hd cs = 32 \<Longrightarrow> tokens (c # cs) = (if c = 32 then tokens cs else [c] # tokens cs)"
  by (cases cs) (auto simp: tokens_def)

lemma tokens_hd_nsp:
  "cs \<noteq> [] \<Longrightarrow> hd cs \<noteq> 32 \<Longrightarrow> c \<noteq> 32 \<Longrightarrow> tokens (c # cs) = (c # hd (tokens cs)) # tl (tokens cs) \<and> tokens cs \<noteq> []"
  by (cases cs) (auto simp: tokens_def)

lemma trimr_sub_spaces:
  "plain x \<Longrightarrow> trimr (sub_spaces x) =
     (if x \<noteq> [] \<and> hd x = 32 \<and> tokens x \<noteq> [] then 32 # unwords (tokens x) else unwords (tokens x))"
proof (induction x rule: sub_spaces.induct)
  case 1
  then show ?case by simp
next
  case (2 c cs)
  have ne: "\<forall>w\<in>set (tokens s). w \<noteq> []" for s by (auto dest: tokens_elems)
  show ?case
  proof (cases "is_space c \<and> cs \<noteq> [] \<and> is_space (hd cs)")
    case True
    with "2.prems" have c: "c = 32" and h: "hd cs = 32" by (cases cs; auto)+
    let ?d = "dropWhile is_space cs"
    have pd: "plain ?d" using "2.prems" by (simp add: plain_dropWhile)
    have nh: "?d \<noteq> [] \<Longrightarrow> hd ?d \<noteq> 32" using dropWhile_hd [of is_space cs] by auto
    have td: "tokens ?d = tokens cs" using "2.prems" by (simp add: tokens_dropWhile)
    from "2.IH"(1) [OF True pd] nh td have ih: "trimr (sub_spaces ?d) = unwords (tokens cs)"
      by auto
    show ?thesis using True c ih unwords_Nil_iff [OF ne, of cs]
      by (simp add: trimr_Cons)
  next
    case False
    from "2.prems" have pc: "plain cs" by simp
    note ih = "2.IH"(2) [OF False pc]
    show ?thesis
    proof (cases "c = 32")
      case True
      with False have "cs = [] \<or> hd cs \<noteq> 32" by auto
      with ih True False show ?thesis
        using unwords_Nil_iff [OF ne, of cs] by (auto simp: trimr_Cons)
    next
      case c: False
      with "2.prems" have nsp: "\<not> is_space c" by auto
      show ?thesis
      proof (cases "cs = []")
        case True
        with c nsp False show ?thesis by (simp add: trimr_Cons tokens_word)
      next
        case ne': False
        show ?thesis
        proof (cases "hd cs = 32")
          case True
          with ne' c nsp False ih show ?thesis
            by (simp add: trimr_Cons tokens_hd_sp unwords_Cons)
        next
          case h: False
          from tokens_hd_nsp [OF ne' h c] obtain w0 rest where
            t: "tokens cs = w0 # rest" "tokens (c # cs) = (c # w0) # rest"
            by (cases "tokens cs") auto
          with ne' c nsp False ih h show ?thesis
            by (simp add: trimr_Cons unwords_Cons)
        qed
      qed
    qed
  qed
qed

lemma sub_spaces_hd: "s \<noteq> [] \<Longrightarrow> \<not> is_space (hd s) \<Longrightarrow> sub_spaces s \<noteq> [] \<and> hd (sub_spaces s) = hd s"
  by (cases s) auto

lemma triml_sub_spaces:
  "dropWhile is_space (sub_spaces x) = sub_spaces (dropWhile is_space x)"
proof (cases x)
  case Nil
  then show ?thesis by simp
next
  case (Cons c cs)
  show ?thesis
  proof (cases "is_space c")
    case False
    with Cons show ?thesis by simp
  next
    case True
    let ?d = "dropWhile is_space cs"
    have d: "dropWhile is_space (sub_spaces ?d) = sub_spaces ?d"
    proof (cases "?d = []")
      case True
      then have "sub_spaces ?d = []" by (simp only: sub_spaces.simps)
      then show ?thesis by (simp only: dropWhile.simps)
    next
      case False
      with dropWhile_hd [of is_space cs] sub_spaces_hd [of ?d]
      show ?thesis by (cases "sub_spaces ?d") auto
    qed
    show ?thesis
    proof (cases "cs \<noteq> [] \<and> is_space (hd cs)")
      case True
      with \<open>is_space c\<close> Cons d show ?thesis by simp
    next
      case False
      then have "?d = cs" by (cases cs) auto
      with \<open>is_space c\<close> Cons d False show ?thesis by auto
    qed
  qed
qed

lemma normalize_tokens: "plain x \<Longrightarrow> strip (sub_spaces x) = unwords (tokens x)"
proof -
  assume p: "plain x"
  let ?z = "dropWhile is_space x"
  have pz: "plain ?z" using p by (rule plain_dropWhile)
  have nh: "?z \<noteq> [] \<Longrightarrow> hd ?z \<noteq> 32" using dropWhile_hd [of is_space x] by auto
  have "strip (sub_spaces x) = trimr (sub_spaces ?z)"
    by (simp add: strip_trimr triml_sub_spaces)
  also have "\<dots> = unwords (tokens ?z)"
    using trimr_sub_spaces [OF pz] nh by auto
  also have "\<dots> = unwords (tokens x)" using p by (simp add: tokens_dropWhile)
  finally show ?thesis .
qed

lemma prefix_before_sp:
  assumes "32 \<notin> set p" and "prefix p (u @ 32 # v)"
  shows "prefix p u"
proof -
  from assms(2) have "prefix p u \<or> (\<exists>us. p = u @ us \<and> prefix us (32 # v))"
    by (simp add: prefix_append)
  then show ?thesis
  proof
    assume "prefix p u" then show ?thesis .
  next
    assume "\<exists>us. p = u @ us \<and> prefix us (32 # v)"
    then obtain us where us: "p = u @ us" "prefix us (32 # v)" by blast
    with assms(1) have "us = []" by (cases us) auto
    with us show ?thesis by simp
  qed
qed

lemma sub_lit_sp_split:
  "p \<noteq> [] \<Longrightarrow> 32 \<notin> set p
     \<Longrightarrow> sub_lit p r (u @ 32 # v) = sub_lit p r u @ 32 # sub_lit p r v"
proof (induction p r u rule: sub_lit.induct)
  case (1 p r)
  then have "\<not> prefix p (32 # v)" by (cases p) auto
  then show ?case by simp
next
  case (2 p r c cs)
  note pp = "2.prems"
  show ?case
  proof (cases "prefix p (c # cs)")
    case True
    then have len: "length p - 1 \<le> length cs" by (auto dest: prefix_length_le)
    from True have pre: "prefix p (c # cs @ 32 # v)"
      using prefix_order.trans [of p "c # cs" "(c # cs) @ 32 # v"] by simp
    from len have d: "drop (length p - 1) (cs @ 32 # v) = drop (length p - 1) cs @ 32 # v"
      by simp
    from True pp "2.IH"(1) have "sub_lit p r (drop (length p - 1) cs @ 32 # v)
        = sub_lit p r (drop (length p - 1) cs) @ 32 # sub_lit p r v" by simp
    with True pre d pp(1) show ?thesis by simp
  next
    case False
    with prefix_before_sp [OF pp(2), of "c # cs" v]
    have np: "\<not> prefix p (c # cs @ 32 # v)" by auto
    from False pp "2.IH"(2) have "sub_lit p r (cs @ 32 # v) = sub_lit p r cs @ 32 # sub_lit p r v"
      by simp
    with False np show ?thesis by simp
  qed
qed

lemma wordwise_sub_lit: "p \<noteq> [] \<Longrightarrow> 32 \<notin> set p \<Longrightarrow> wordwise (sub_lit p r)"
  by (simp add: wordwise_def sub_lit_sp_split)

lemma not_whitelisted_32 [simp]: "\<not> whitelisted 32"
  by (simp add: whitelisted_def lit_def)

lemma wordwise_sub_class: "wordwise sub_class"
  by (simp add: wordwise_def sub_class_def)

lemma wordwise_comp: "wordwise f \<Longrightarrow> wordwise g \<Longrightarrow> wordwise (\<lambda>s. g (f s))"
  by (simp add: wordwise_def)

lemma wordwise_tokens:
  assumes "wordwise f"
  shows "tokens (f s) = concat (map (\<lambda>w. tokens (f w)) (tokens s))"
proof (induction s rule: length_induct)
  case (1 s)
  show ?case
  proof (cases "32 \<in> set s")
    case False
    then show ?thesis using assms
      by (cases "s = []") (simp_all add: tokens_word wordwise_def)
  next
    case True
    then obtain u v where s: "s = u @ 32 # v" and u: "32 \<notin> set u"
      by (auto dest: split_list_first)
    have ih: "tokens (f v) = concat (map (\<lambda>w. tokens (f w)) (tokens v))"
      using 1 s by simp
    have fs: "f (u @ 32 # v) = f u @ 32 # f v" using assms by (simp add: wordwise_def)
    have fu: "tokens (f u) = concat (map (\<lambda>w. tokens (f w)) (tokens u))"
      using u assms by (cases "u = []") (simp_all add: tokens_word wordwise_def)
    show ?thesis unfolding s by (simp add: fs tokens_append_sp ih fu)
  qed
qed

lemma sub_lit_absent: "c \<notin> set s \<Longrightarrow> sub_lit [c] r s = s"
  by (induction s) auto

lemma sub_lit_no_occ: "no_occ p s \<Longrightarrow> sub_lit p r s = s"
proof (induction s)
  case Nil
  then show ?case by simp
next
  case (Cons c cs)
  from Cons.prems have "\<not> prefix p (drop 0 (c # cs))" unfolding no_occ_def by blast
  then have np: "\<not> prefix p (c # cs)" by simp
  have "no_occ p cs" unfolding no_occ_def
  proof
    fix k
    from Cons.prems have "\<not> prefix p (drop (Suc k) (c # cs))" unfolding no_occ_def by blast
    then show "\<not> prefix p (drop k cs)" by simp
  qed
  with Cons.IH np show ?case by simp
qed

lemma sub_lit_only_head:
  assumes "only_head p w" and "p \<noteq> []"
  shows "sub_lit p r w = (if prefix p w then r @ drop (length p) w else w)"
proof (cases w)
  case Nil
  with assms show ?thesis by simp
next
  case (Cons c cs)
  have later: "no_occ p (drop k cs)" for k unfolding no_occ_def
  proof
    fix j
    from assms(1) have "\<not> prefix p (drop (Suc (j + k)) w)" unfolding only_head_def by simp
    then show "\<not> prefix p (drop j (drop k cs))" by (simp add: Cons)
  qed
  show ?thesis
  proof (cases "prefix p w")
    case True
    have "drop (length p) w = drop (length p - 1) cs" using assms(2) Cons
      by (cases p) simp_all
    with True Cons assms(2) later [of "length p - 1"] show ?thesis
      by (simp add: sub_lit_no_occ)
  next
    case False
    with Cons later [of 0] show ?thesis by (simp add: sub_lit_no_occ)
  qed
qed

lemma sub_lit_leading_sp: "p \<noteq> [] \<Longrightarrow> hd p \<noteq> 32 \<Longrightarrow> sub_lit p r (replicate k 32 @ w) = replicate k 32 @ sub_lit p r w"
  by (induction k) (cases p; auto)+

lemma only_head_sublist:
  assumes "only_head p w" and "sublist u w"
  shows "only_head p u"
  unfolding only_head_def
proof (intro allI impI notI)
  fix k :: nat assume k: "0 < k" and pre: "prefix p (drop k u)"
  from assms(1) have "\<not> prefix p (drop 1 w)" unfolding only_head_def by simp
  then have pne: "p \<noteq> []" by auto
  from assms(2) obtain a b where w: "w = a @ u @ b" by (auto simp: sublist_def)
  from pre pne have "drop k u \<noteq> []" by auto
  then have kl: "k \<le> length u" by simp
  then have "drop (length a + k) w = drop k u @ b" by (simp add: w)
  with pre have "prefix p (drop (length a + k) w)" by simp
  with assms(1) k show False unfolding only_head_def by simp
qed

lemma no_occ_only_head: "no_occ p w \<Longrightarrow> only_head p w"
  by (simp add: no_occ_def only_head_def)

lemma splitsp_append_nsp: "32 \<notin> set a \<Longrightarrow> splitsp (a @ t) = (a @ hd (splitsp t)) # tl (splitsp t)"
  by (induction a) auto

lemma sub_lit_contraction_segs_aux:
  "p \<noteq> [] \<Longrightarrow> 32 \<notin> set p \<Longrightarrow> hd p \<notin> set (tl p) \<Longrightarrow> r = 32 # p
     \<Longrightarrow> prefix (hd (splitsp (sub_lit p r s))) s
       \<and> no_occ p (hd (splitsp (sub_lit p r s)))
       \<and> (\<forall>u\<in>set (tl (splitsp (sub_lit p r s))). only_head p u \<and> sublist u s)"
proof (induction p r s rule: sub_lit.induct)
  case (1 p r)
  then show ?case by (simp add: no_occ_def)
next
  case (2 p r c cs)
  note pp = "2.prems"
  let ?f = "sub_lit p r"
  show ?case
  proof (cases "prefix p (c # cs)")
    case True
    let ?rest = "drop (length p - 1) cs"
    from True obtain z where z: "c # cs = p @ z" by (auto simp: prefix_def)
    have rest: "?rest = z"
    proof -
      have "drop (length p) (c # cs) = z" by (simp add: z)
      moreover have "drop (length p) (c # cs) = ?rest" using pp(1) by (cases p) simp_all
      ultimately show ?thesis by simp
    qed
    let ?t = "?f ?rest"
    let ?u = "hd (splitsp ?t)"
    from "2.IH"(1) True pp have ih: "prefix ?u ?rest" "no_occ p ?u"
      "\<forall>u\<in>set (tl (splitsp ?t)). only_head p u \<and> sublist u ?rest"
      by simp_all
    have fs: "?f (c # cs) = 32 # p @ ?t" using True pp(1,4) by simp
    have segs: "splitsp (?f (c # cs)) = [] # (p @ ?u) # tl (splitsp ?t)"
      unfolding fs by (simp add: splitsp_append_nsp [OF pp(2)])
    have oh: "only_head p (p @ ?u)" unfolding only_head_def
    proof (intro allI impI notI)
      fix k :: nat assume k: "0 < k" and pre: "prefix p (drop k (p @ ?u))"
      show False
      proof (cases "k < length p")
        case True
        then have "drop k (p @ ?u) = (p ! k) # drop (Suc k) p @ ?u"
          by (simp add: Cons_nth_drop_Suc)
        with pre pp(1) have "hd p = p ! k" by (cases p) auto
        moreover from k True pp(1) have "p ! k \<in> set (tl p)"
          by (cases p; cases k) auto
        ultimately show False using pp(3) by simp
      next
        case False
        then have "drop k (p @ ?u) = drop (k - length p) ?u" by simp
        with pre ih(2) show False by (simp add: no_occ_def)
      qed
    qed
    have sl: "sublist (p @ ?u) (c # cs)"
      using ih(1) by (simp add: z rest [symmetric])
    have others: "\<forall>u\<in>set (tl (splitsp ?t)). only_head p u \<and> sublist u (c # cs)"
    proof
      fix u assume "u \<in> set (tl (splitsp ?t))"
      with ih(3) have "only_head p u" "sublist u ?rest" by auto
      moreover have "sublist ?rest (c # cs)" unfolding rest z by (rule sublist_append_leftI)
      ultimately show "only_head p u \<and> sublist u (c # cs)"
        using sublist_order.order_trans by blast
    qed
    show ?thesis unfolding segs using oh sl others pp(1) by (simp add: no_occ_def)
  next
    case False
    let ?t = "?f cs"
    let ?u = "hd (splitsp ?t)"
    from "2.IH"(2) False pp have ih: "prefix ?u cs" "no_occ p ?u"
      "\<forall>u\<in>set (tl (splitsp ?t)). only_head p u \<and> sublist u cs"
      by simp_all
    have fs: "?f (c # cs) = c # ?t" using False by simp
    have up: "\<And>u. sublist u cs \<Longrightarrow> sublist u (c # cs)" by (simp add: sublist_Cons_right)
    show ?thesis
    proof (cases "c = 32")
      case True
      have "\<forall>u\<in>set (splitsp ?t). only_head p u \<and> sublist u (c # cs)"
      proof
        fix u assume "u \<in> set (splitsp ?t)"
        then have "u = ?u \<or> u \<in> set (tl (splitsp ?t))" by (cases "splitsp ?t") auto
        then show "only_head p u \<and> sublist u (c # cs)"
          using ih up by (auto simp: no_occ_only_head)
      qed
      with True pp(1) show ?thesis unfolding fs by (simp add: no_occ_def)
    next
      case c: False
      have "no_occ p (c # ?u)" unfolding no_occ_def
      proof (intro allI notI)
        fix k assume pre: "prefix p (drop k (c # ?u))"
        show False
        proof (cases k)
          case 0
          with pre have "prefix p (c # ?u)" by simp
          moreover have "prefix (c # ?u) (c # cs)" using ih(1) by simp
          ultimately have "prefix p (c # cs)" by (rule prefix_order.trans)
          with False show False by simp
        next
          case (Suc j)
          with pre ih(2) show False by (simp add: no_occ_def)
        qed
      qed
      with c ih up show ?thesis unfolding fs by simp
    qed
  qed
qed

lemma sub_lit_contraction_segs:
  assumes "p \<noteq> []" "32 \<notin> set p" "hd p \<notin> set (tl p)"
  shows "prefix (hd (splitsp (sub_lit p (32 # p) s))) s
       \<and> no_occ p (hd (splitsp (sub_lit p (32 # p) s)))
       \<and> (\<forall>u\<in>set (tl (splitsp (sub_lit p (32 # p) s))). only_head p u \<and> sublist u s)"
  using sub_lit_contraction_segs_aux [OF assms refl] .

lemma sub_lit_contraction_tokens:
  assumes "p \<noteq> []" "32 \<notin> set p" "hd p \<notin> set (tl p)" and "u \<in> set (tokens (sub_lit p (32 # p) s))"
  shows "only_head p u \<and> sublist u s"
proof -
  let ?segs = "splitsp (sub_lit p (32 # p) s)"
  from assms(4) have "u \<in> set ?segs" by (simp add: tokens_def)
  then have "u = hd ?segs \<or> u \<in> set (tl ?segs)" by (cases ?segs) auto
  with sub_lit_contraction_segs [OF assms(1-3), of s] show ?thesis
    by (auto simp: no_occ_only_head)
qed

lemma sub_lit_mark_segs:
  assumes c: "c \<noteq> 32" and m: "32 \<notin> set m"
  shows "prefix (hd (splitsp (sub_lit [c] (32 # m @ [32]) s))) s
       \<and> c \<notin> set (hd (splitsp (sub_lit [c] (32 # m @ [32]) s)))
       \<and> (\<forall>u\<in>set (tl (splitsp (sub_lit [c] (32 # m @ [32]) s))).
             u = m \<or> (c \<notin> set u \<and> sublist u s))"
proof (induction s)
  case Nil
  then show ?case by simp
next
  case (Cons x xs)
  let ?g = "sub_lit [c] (32 # m @ [32])"
  let ?t = "?g xs"
  let ?u = "hd (splitsp ?t)"
  note ih = Cons.IH
  have up: "\<And>u. sublist u xs \<Longrightarrow> sublist u (x # xs)" by (simp add: sublist_Cons_right)
  have all: "\<forall>u\<in>set (splitsp ?t). u = m \<or> (c \<notin> set u \<and> sublist u (x # xs))"
  proof
    fix u assume "u \<in> set (splitsp ?t)"
    then have "u = ?u \<or> u \<in> set (tl (splitsp ?t))" by (cases "splitsp ?t") auto
    then show "u = m \<or> (c \<notin> set u \<and> sublist u (x # xs))"
      using ih up by auto
  qed
  show ?case
  proof (cases "x = c")
    case True
    have "?g (x # xs) = 32 # m @ 32 # ?t" using True by simp
    then have "splitsp (?g (x # xs)) = [] # m # splitsp ?t"
      by (simp add: splitsp_append_sp splitsp_no_sp [OF m])
    with all show ?thesis by simp
  next
    case False
    then have fs: "?g (x # xs) = x # ?t" by simp
    show ?thesis
    proof (cases "x = 32")
      case True
      with all c show ?thesis by (simp add: fs)
    next
      case x: False
      with False ih up show ?thesis by (auto simp: fs)
    qed
  qed
qed

lemma sub_lit_mark_tokens:
  assumes "c \<noteq> 32" "32 \<notin> set m" and "u \<in> set (tokens (sub_lit [c] (32 # m @ [32]) s))"
  shows "u = m \<or> (c \<notin> set u \<and> sublist u s)"
proof -
  let ?segs = "splitsp (sub_lit [c] (32 # m @ [32]) s)"
  from assms(3) have "u \<in> set ?segs" by (simp add: tokens_def)
  then have "u = hd ?segs \<or> u \<in> set (tl ?segs)" by (cases ?segs) auto
  with sub_lit_mark_segs [OF assms(1,2), of s] show ?thesis
    by auto
qed

lemma clean_str_subs: "clean_str s = strip (sub_spaces (subs s))"
  by (simp add: clean_str_def subs_def Let_def)

lemma subs_num:
  "subs s =
     sub_lit [63] (32 # [92, 63] @ [32])
      (sub_lit [41] (32 # [92, 41] @ [32])
        (sub_lit [40] (32 # [92, 40] @ [32])
          (sub_lit [33] (32 # [33] @ [32])
            (sub_lit [44] (32 # [44] @ [32])
              (sub_lit [39, 108, 108] (32 # [39, 108, 108])
                (sub_lit [39, 100] (32 # [39, 100])
                  (sub_lit [39, 114, 101] (32 # [39, 114, 101])
                    (sub_lit [110, 39, 116] (32 # [110, 39, 116])
                      (sub_lit [39, 118, 101] (32 # [39, 118, 101])
                        (sub_lit [39, 115] (32 # [39, 115]) (sub_class s)))))))))))"
  by (simp add: subs_def lit_def)

lemma concat_splitsp: "concat (splitsp s) = filter (\<lambda>c. c \<noteq> 32) s"
proof (induction s)
  case Nil
  then show ?case by simp
next
  case (Cons c cs)
  have "hd (splitsp cs) @ concat (tl (splitsp cs)) = concat (splitsp cs)"
    by (cases "splitsp cs") simp_all
  with Cons show ?case by simp
qed

lemma set_tokens: "u \<in> set (tokens s) \<Longrightarrow> set u \<subseteq> set s"
proof -
  assume "u \<in> set (tokens s)"
  then have "u \<in> set (splitsp s)" by (simp add: tokens_def)
  then have "set u \<subseteq> set (concat (splitsp s))" by auto
  then show ?thesis by (auto simp: concat_splitsp)
qed

lemma raw_sublist: "raw ps cs w \<Longrightarrow> sublist u w \<Longrightarrow> raw ps cs u"
  unfolding raw_def using set_mono_sublist [of u w] only_head_sublist [of _ w u] by blast

lemma tokens_wordwise_mem:
  assumes "wordwise f" and "u \<in> set (tokens (f x))"
  shows "\<exists>w\<in>set (tokens x). u \<in> set (tokens (f w))"
  using assms(2) by (auto simp: wordwise_tokens [OF assms(1), of x])

lemma step_contraction:
  assumes inv: "\<forall>w\<in>set (tokens x). raw ps [] w"
    and p: "p \<noteq> []" "32 \<notin> set p" "hd p \<notin> set (tl p)"
  shows "\<forall>u\<in>set (tokens (sub_lit p (32 # p) x)). raw (p # ps) [] u"
proof
  fix u assume "u \<in> set (tokens (sub_lit p (32 # p) x))"
  from tokens_wordwise_mem [OF wordwise_sub_lit [OF p(1,2)] this]
  obtain w where w: "w \<in> set (tokens x)" "u \<in> set (tokens (sub_lit p (32 # p) w))" by blast
  from sub_lit_contraction_tokens [OF p w(2)] have u: "only_head p u" "sublist u w" by simp_all
  from inv w(1) have "raw ps [] w" by blast
  from raw_sublist [OF this u(2)] u(1) show "raw (p # ps) [] u" by (simp add: raw_def)
qed

lemma step_mark:
  assumes inv: "\<forall>w\<in>set (tokens x). settled as ps cs w"
    and c: "c \<noteq> 32" and m: "32 \<notin> set m" and as: "\<forall>a\<in>set as. c \<notin> set a"
  shows "\<forall>u\<in>set (tokens (sub_lit [c] (32 # m @ [32]) x)). settled (m # as) ps (c # cs) u"
proof
  let ?g = "sub_lit [c] (32 # m @ [32])"
  fix u assume "u \<in> set (tokens (?g x))"
  from tokens_wordwise_mem [OF wordwise_sub_lit this] c
  obtain w where w: "w \<in> set (tokens x)" "u \<in> set (tokens (?g w))" by auto
  from inv w(1) have "w \<in> set as \<or> raw ps cs w" by (simp add: settled_def)
  then show "settled (m # as) ps (c # cs) u"
  proof
    assume a: "w \<in> set as"
    with as have "?g w = w" by (simp add: sub_lit_absent)
    with w tokens_elems [OF w(1)] have "u = w" by (simp add: tokens_word)
    with a show ?thesis by (simp add: settled_def)
  next
    assume r: "raw ps cs w"
    from sub_lit_mark_tokens [OF c m w(2)] show ?thesis
    proof
      assume "u = m" then show ?thesis by (simp add: settled_def)
    next
      assume "c \<notin> set u \<and> sublist u w"
      with raw_sublist [OF r, of u] show ?thesis by (simp add: settled_def raw_def)
    qed
  qed
qed

lemma tokens_sub_class: "\<forall>w\<in>set (tokens (sub_class s)). raw [] [] w"
proof
  fix w assume w: "w \<in> set (tokens (sub_class s))"
  from tokens_elems [OF w] set_tokens [OF w]
  have "\<forall>c\<in>set w. c \<noteq> 32 \<and> c \<in> set (sub_class s)" by auto
  then show "raw [] [] w" by (auto simp: raw_def sub_class_def split: if_splits)
qed

lemma tokens_subs:
  "\<forall>u\<in>set (tokens (subs s)). settled atoms contractions [63, 41, 40, 33, 44] u"
proof -
  let ?x0 = "sub_class s"
  let ?x1 = "sub_lit [39, 115] (32 # [39, 115]) ?x0"
  let ?x2 = "sub_lit [39, 118, 101] (32 # [39, 118, 101]) ?x1"
  let ?x3 = "sub_lit [110, 39, 116] (32 # [110, 39, 116]) ?x2"
  let ?x4 = "sub_lit [39, 114, 101] (32 # [39, 114, 101]) ?x3"
  let ?x5 = "sub_lit [39, 100] (32 # [39, 100]) ?x4"
  let ?x6 = "sub_lit [39, 108, 108] (32 # [39, 108, 108]) ?x5"
  let ?x7 = "sub_lit [44] (32 # [44] @ [32]) ?x6"
  let ?x8 = "sub_lit [33] (32 # [33] @ [32]) ?x7"
  let ?x9 = "sub_lit [40] (32 # [92, 40] @ [32]) ?x8"
  let ?x10 = "sub_lit [41] (32 # [92, 41] @ [32]) ?x9"
  let ?x11 = "sub_lit [63] (32 # [92, 63] @ [32]) ?x10"
  note i0 = tokens_sub_class [of s]
  have i1: "\<forall>u\<in>set (tokens ?x1). raw [[39, 115]] [] u"
    by (rule step_contraction [OF i0]) simp_all
  have i2: "\<forall>u\<in>set (tokens ?x2). raw [[39, 118, 101], [39, 115]] [] u"
    by (rule step_contraction [OF i1]) simp_all
  have i3: "\<forall>u\<in>set (tokens ?x3). raw [[110, 39, 116], [39, 118, 101], [39, 115]] [] u"
    by (rule step_contraction [OF i2]) simp_all
  have i4: "\<forall>u\<in>set (tokens ?x4). raw [[39, 114, 101], [110, 39, 116], [39, 118, 101], [39, 115]] [] u"
    by (rule step_contraction [OF i3]) simp_all
  have i5: "\<forall>u\<in>set (tokens ?x5). raw [[39, 100], [39, 114, 101], [110, 39, 116], [39, 118, 101], [39, 115]] [] u"
    by (rule step_contraction [OF i4]) simp_all
  have i6: "\<forall>u\<in>set (tokens ?x6). raw contractions [] u"
    by (rule step_contraction [OF i5]) simp_all
  then have j6: "\<forall>u\<in>set (tokens ?x6). settled [] contractions [] u"
    by (simp add: settled_def)
  have i7: "\<forall>u\<in>set (tokens ?x7). settled [[44]] contractions [44] u"
    by (rule step_mark [OF j6]) simp_all
  have i8: "\<forall>u\<in>set (tokens ?x8). settled [[33], [44]] contractions [33, 44] u"
    by (rule step_mark [OF i7]) simp_all
  have i9: "\<forall>u\<in>set (tokens ?x9). settled [[92, 40], [33], [44]] contractions [40, 33, 44] u"
    by (rule step_mark [OF i8]) simp_all
  have i10: "\<forall>u\<in>set (tokens ?x10). settled [[92, 41], [92, 40], [33], [44]] contractions [41, 40, 33, 44] u"
    by (rule step_mark [OF i9]) simp_all
  have i11: "\<forall>u\<in>set (tokens ?x11). settled atoms contractions [63, 41, 40, 33, 44] u"
    by (rule step_mark [OF i10]) simp_all
  then show ?thesis by (simp only: subs_num)
qed

lemma contraction_stable:
  assumes "only_head p u" and "p \<noteq> []" and "hd p \<noteq> 32"
  shows "\<exists>k'. sub_lit p (32 # p) (replicate k 32 @ u) = replicate k' 32 @ u"
proof (cases "prefix p u")
  case True
  then have "p @ drop (length p) u = u" by (auto simp: prefix_def)
  then have "sub_lit p (32 # p) u = 32 # u"
    using sub_lit_only_head [OF assms(1,2), of "32 # p"] True by simp
  then have "sub_lit p (32 # p) (replicate k 32 @ u) = replicate (Suc k) 32 @ u"
    by (simp add: sub_lit_leading_sp [OF assms(2,3)] replicate_app_Cons_same)
  then show ?thesis by blast
next
  case False
  then have "sub_lit p (32 # p) u = u"
    using sub_lit_only_head [OF assms(1,2), of "32 # p"] by simp
  then have "sub_lit p (32 # p) (replicate k 32 @ u) = replicate k 32 @ u"
    by (simp add: sub_lit_leading_sp [OF assms(2,3)])
  then show ?thesis by blast
qed

lemma tokens_replicate: "32 \<notin> set u \<Longrightarrow> u \<noteq> [] \<Longrightarrow> tokens (replicate k 32 @ u) = [u]"
  by (induction k) (simp_all add: tokens_word)

lemma stable_raw:
  assumes r: "raw contractions [63, 41, 40, 33, 44] u" and u: "u \<noteq> []" "32 \<notin> set u"
  shows "tokens (subs u) = [u]"
proof -
  from r have wl: "\<forall>c\<in>set u. whitelisted c" by (simp add: raw_def)
  then have x0: "sub_class u = replicate 0 32 @ u" by (simp add: sub_class_def map_idI)
  from r have oh: "only_head [39, 115] u" "only_head [39, 118, 101] u" "only_head [110, 39, 116] u"
    "only_head [39, 114, 101] u" "only_head [39, 100] u" "only_head [39, 108, 108] u"
    by (simp_all add: raw_def)
  from r have nm: "44 \<notin> set u" "33 \<notin> set u" "40 \<notin> set u" "41 \<notin> set u" "63 \<notin> set u"
    by (auto simp: raw_def)
  obtain k1 where x1: "sub_lit [39, 115] (32 # [39, 115]) (sub_class u) = replicate k1 32 @ u"
    unfolding x0 using contraction_stable [OF oh(1), of 0] by auto
  obtain k2 where x2: "sub_lit [39, 118, 101] (32 # [39, 118, 101]) (replicate k1 32 @ u) = replicate k2 32 @ u"
    using contraction_stable [OF oh(2), of k1] by auto
  obtain k3 where x3: "sub_lit [110, 39, 116] (32 # [110, 39, 116]) (replicate k2 32 @ u) = replicate k3 32 @ u"
    using contraction_stable [OF oh(3), of k2] by auto
  obtain k4 where x4: "sub_lit [39, 114, 101] (32 # [39, 114, 101]) (replicate k3 32 @ u) = replicate k4 32 @ u"
    using contraction_stable [OF oh(4), of k3] by auto
  obtain k5 where x5: "sub_lit [39, 100] (32 # [39, 100]) (replicate k4 32 @ u) = replicate k5 32 @ u"
    using contraction_stable [OF oh(5), of k4] by auto
  obtain k6 where x6: "sub_lit [39, 108, 108] (32 # [39, 108, 108]) (replicate k5 32 @ u) = replicate k6 32 @ u"
    using contraction_stable [OF oh(6), of k5] by auto
  have ab: "c \<notin> set u \<Longrightarrow> c \<noteq> 32 \<Longrightarrow> sub_lit [c] r (replicate k6 32 @ u) = replicate k6 32 @ u" for c r
    by (rule sub_lit_absent) auto
  have "subs u = replicate k6 32 @ u"
    unfolding subs_num x1 x2 x3 x4 x5 x6 using nm by (simp add: ab)
  then show ?thesis using u by (simp add: tokens_replicate)
qed

lemma stable_atoms:
  "tokens (subs [44]) = [[44]]" "tokens (subs [33]) = [[33]]"
  "tokens (subs [92, 40]) = [[92, 40]]" "tokens (subs [92, 41]) = [[92, 41]]"
  "tokens (subs [92, 63]) = [[92, 63]]"
  by (simp_all add: subs_num sub_class_def whitelisted_def lit_def tokens_def)

lemma stable_token:
  assumes "u \<in> set (tokens (subs s))"
  shows "tokens (subs u) = [u]"
proof -
  from tokens_subs assms have "settled atoms contractions [63, 41, 40, 33, 44] u" by blast
  then have "u \<in> set atoms \<or> raw contractions [63, 41, 40, 33, 44] u" by (simp only: settled_def)
  then show ?thesis
  proof
    assume "u \<in> set atoms"
    then show ?thesis using stable_atoms by auto
  next
    assume "raw contractions [63, 41, 40, 33, 44] u"
    with tokens_elems [OF assms] show ?thesis by (simp add: stable_raw)
  qed
qed

lemma set_sub_lit: "set (sub_lit p r s) \<subseteq> set s \<union> set r"
proof (induction p r s rule: sub_lit.induct)
  case (1 p r)
  then show ?case by simp
next
  case (2 p r c cs)
  have "set (drop (length p - 1) cs) \<subseteq> set cs" by (rule set_drop_subset)
  with 2 show ?case by (auto split: if_splits)
qed

lemma set_sub_class: "set (sub_class s) \<subseteq> {c. whitelisted c} \<union> {32}"
  by (auto simp: sub_class_def)

lemma set_subs: "set (subs s) \<subseteq> {c. whitelisted c} \<union> {32, 92}"
proof -
  have step: "set x \<subseteq> {c. whitelisted c} \<union> {32, 92} \<Longrightarrow> set r \<subseteq> {c. whitelisted c} \<union> {32, 92}
      \<Longrightarrow> set (sub_lit p r x) \<subseteq> {c. whitelisted c} \<union> {32, 92}" for x p r
    using set_sub_lit [of p r x] by blast
  have x0: "set (sub_class s) \<subseteq> {c. whitelisted c} \<union> {32, 92}" using set_sub_class [of s] by blast
  show ?thesis unfolding subs_num
    by (intro step x0) (simp_all add: whitelisted_def lit_def)
qed

lemma whitelisted_range: "whitelisted c \<Longrightarrow> 33 \<le> c \<and> c \<le> 122"
  by (auto simp: whitelisted_def lit_def)

lemma is_space_range: "is_space c \<Longrightarrow> c \<le> 32 \<or> 133 \<le> c"
  by (auto simp: is_space_def)

lemma whitelisted_not_space: "whitelisted c \<Longrightarrow> \<not> is_space c"
  using whitelisted_range [of c] is_space_range [of c] by auto

lemma plain_subs: "plain (subs s)"
  unfolding plain_def
proof (intro ballI impI)
  fix c assume "c \<in> set (subs s)" and sp: "is_space c"
  with set_subs [of s] have "whitelisted c \<or> c = 32 \<or> c = 92" by auto
  moreover have "\<not> is_space 92" by (simp add: is_space_def)
  ultimately show "c = 32" using sp whitelisted_not_space [of c] by auto
qed

lemma sub_class_sp_split: "sub_class (u @ 32 # v) = sub_class u @ 32 # sub_class v"
  by (simp add: sub_class_def)

lemma wordwise_subs: "wordwise subs"
  unfolding wordwise_def subs_num
  by (simp add: sub_lit_sp_split sub_class_sp_split) (simp add: sub_class_def)

lemma clean_str_tokens: "clean_str s = unwords (tokens (subs s))"
  by (simp add: clean_str_subs normalize_tokens plain_subs)

text \<open>
  Claim C5. For every input string \<open>s\<close>, \<^verbatim>\<open>clean_str\<close> is idempotent:
  normalizing its own output gives the same string.
\<close>

theorem clean_str_idempotent: "clean_str (clean_str s) = clean_str s"
proof -
  let ?ws = "tokens (subs s)"
  have ok: "\<forall>w\<in>set ?ws. w \<noteq> [] \<and> 32 \<notin> set w" by (auto dest: tokens_elems)
  have "tokens (subs (unwords ?ws)) = concat (map (\<lambda>w. tokens (subs w)) (tokens (unwords ?ws)))"
    by (rule wordwise_tokens [OF wordwise_subs])
  also have "tokens (unwords ?ws) = ?ws" by (rule tokens_unwords [OF ok])
  also have "map (\<lambda>w. tokens (subs w)) ?ws = map (\<lambda>w. [w]) ?ws"
    by (rule map_cong [OF refl]) (rule stable_token)
  also have "concat (map (\<lambda>w. [w]) ?ws) = ?ws" by (induction ?ws) simp_all
  finally have "tokens (subs (unwords ?ws)) = ?ws" .
  then show ?thesis by (simp add: clean_str_tokens)
qed

section \<open>The shape of the normalized text\<close>

lemma successively_nth:
  "successively P xs \<Longrightarrow> Suc i < length xs \<Longrightarrow> P (xs ! i) (xs ! Suc i)"
proof (induction xs arbitrary: i)
  case Nil
  then show ?case by simp
next
  case (Cons x xs)
  show ?case
  proof (cases i)
    case 0
    with Cons.prems show ?thesis by (cases xs) auto
  next
    case (Suc j)
    with Cons.prems have "successively P xs" "Suc j < length xs"
      by (auto simp: successively_Cons)
    with Cons.IH Suc show ?thesis by simp
  qed
qed

lemma successively_all:
  assumes "\<forall>x\<in>set xs. \<forall>y\<in>set xs. P x y"
  shows "successively P xs"
proof (rule successively_if_sorted_wrt)
  show "sorted_wrt P xs" using assms by (simp add: sorted_wrt_iff_nth_less)
qed

lemma settled_token_shape:
  assumes "settled atoms contractions [63, 41, 40, 33, 44] w" and "w \<noteq> []" and "32 \<notin> set w"
  shows "successively adjacent_ok w \<and> \<not> is_space (hd w) \<and> \<not> is_space (last w)
       \<and> (\<forall>c\<in>set w. c \<noteq> 92 \<longrightarrow> whitelisted c)"
proof -
  from assms(1) have "w \<in> set atoms \<or> raw contractions [63, 41, 40, 33, 44] w"
    by (simp only: settled_def)
  then show ?thesis
  proof
    assume "w \<in> set atoms"
    then show ?thesis
      by (auto simp: adjacent_ok_def lit_def is_space_def whitelisted_def)
  next
    assume r: "raw contractions [63, 41, 40, 33, 44] w"
    then have wl: "\<forall>c\<in>set w. whitelisted c" and nm: "set w \<inter> {63, 41, 40, 33, 44} = {}"
      by (simp_all add: raw_def)
    have ns: "\<forall>c\<in>set w. \<not> is_space c" using wl by (auto dest: whitelisted_not_space)
    have "successively adjacent_ok w"
    proof (rule successively_all, intro ballI)
      fix x y assume "x \<in> set w" "y \<in> set w"
      with ns nm show "adjacent_ok x y" by (auto simp: adjacent_ok_def lit_def)
    qed
    moreover have "hd w \<in> set w" "last w \<in> set w" using assms(2) by simp_all
    ultimately show ?thesis using ns nm wl by (auto simp: lit_def)
  qed
qed

lemma unwords_shape:
  assumes "\<forall>w\<in>set ws. settled atoms contractions [63, 41, 40, 33, 44] w \<and> w \<noteq> [] \<and> 32 \<notin> set w"
    and "ws \<noteq> []"
  shows "successively adjacent_ok (unwords ws) \<and> unwords ws \<noteq> []
       \<and> hd (unwords ws) = hd (hd ws) \<and> last (unwords ws) = last (last ws)"
  using assms
proof (induction ws rule: unwords.induct)
  case 1
  then show ?case by simp
next
  case (2 w)
  then show ?case using settled_token_shape [of w] by simp
next
  case (3 w v ws)
  let ?r = "unwords (v # ws)"
  from "3.prems" have w: "settled atoms contractions [63, 41, 40, 33, 44] w" "w \<noteq> []" "32 \<notin> set w"
    and v: "settled atoms contractions [63, 41, 40, 33, 44] v" "v \<noteq> []" "32 \<notin> set v"
    by simp_all
  from "3.IH" "3.prems" have ih: "successively adjacent_ok ?r" "?r \<noteq> []"
    "hd ?r = hd v" "last ?r = last (last (v # ws))"
    by simp_all
  note sw = settled_token_shape [OF w]
  note sv = settled_token_shape [OF v]
  have a: "adjacent_ok (last w) 32"
    using sw by (simp add: adjacent_ok_def lit_def)
  have b: "adjacent_ok 32 (hd v)"
    using sv by (simp add: adjacent_ok_def lit_def)
  have "successively adjacent_ok (w @ 32 # ?r)"
    using sw ih a b w(2) by (simp add: successively_append_iff successively_Cons)
  then show ?case using ih w(2) by simp
qed

lemma clean_str_tokens_settled:
  "\<forall>w\<in>set (tokens (subs s)). settled atoms contractions [63, 41, 40, 33, 44] w \<and> w \<noteq> [] \<and> 32 \<notin> set w"
  using tokens_subs [of s] by (auto dest: tokens_elems)

lemma set_unwords: "set (unwords ws) \<subseteq> \<Union> (set ` set ws) \<union> {32}"
  by (induction ws rule: unwords.induct) auto

lemma unwords_Nil [simp]: "unwords [] = []"
  by simp

text \<open>
  Claim C1, amended. For every input string, in the output of \<^verbatim>\<open>clean_str\<close>:
  there is no whitespace at either end; no two adjacent characters are both whitespace,
  and the only whitespace character is the space; each of the marks \<^verbatim>\<open>, ! ( ) ?\<close>
  is followed by a space or ends the string; each of \<^verbatim>\<open>,\<close> and \<^verbatim>\<open>!\<close> is
  preceded by a space or starts the string; and every character other than a backslash
  is a whitelisted character or a space.
\<close>

theorem clean_str_shape:
  "(clean_str s \<noteq> [] \<longrightarrow> \<not> is_space (hd (clean_str s)) \<and> \<not> is_space (last (clean_str s)))
   \<and> (\<forall>i. Suc i < length (clean_str s) \<longrightarrow>
         \<not> (is_space (clean_str s ! i) \<and> is_space (clean_str s ! Suc i))
         \<and> (clean_str s ! i \<in> set (lit '',!()?'') \<longrightarrow> clean_str s ! Suc i = 32)
         \<and> (clean_str s ! Suc i \<in> set (lit '',!'') \<longrightarrow> clean_str s ! i = 32))
   \<and> (\<forall>c\<in>set (clean_str s). is_space c \<longrightarrow> c = 32)
   \<and> (\<forall>c\<in>set (clean_str s). c \<noteq> 92 \<longrightarrow> whitelisted c \<or> c = 32)"
proof -
  let ?ws = "tokens (subs s)"
  let ?out = "clean_str s"
  have out: "?out = unwords ?ws" by (rule clean_str_tokens)
  note tk = clean_str_tokens_settled [of s]
  have ends: "?out \<noteq> [] \<longrightarrow> \<not> is_space (hd ?out) \<and> \<not> is_space (last ?out)"
  proof
    assume ne: "?out \<noteq> []"
    with out have wne: "?ws \<noteq> []" by auto
    then have "hd ?ws \<in> set ?ws" "last ?ws \<in> set ?ws" by simp_all
    with tk settled_token_shape [of "hd ?ws"] settled_token_shape [of "last ?ws"]
    have "\<not> is_space (hd (hd ?ws))" "\<not> is_space (last (last ?ws))" by blast+
    with unwords_shape [OF tk wne] out show "\<not> is_space (hd ?out) \<and> \<not> is_space (last ?out)"
      by simp
  qed
  have adj: "\<forall>i. Suc i < length ?out \<longrightarrow> adjacent_ok (?out ! i) (?out ! Suc i)"
  proof (intro allI impI)
    fix i assume i: "Suc i < length ?out"
    then have "?ws \<noteq> []" using out by auto
    from unwords_shape [OF tk this] out have "successively adjacent_ok ?out" by simp
    from successively_nth [OF this i] show "adjacent_ok (?out ! i) (?out ! Suc i)" .
  qed
  have chars: "\<forall>c\<in>set ?out. c \<noteq> 92 \<longrightarrow> whitelisted c \<or> c = 32"
  proof (intro ballI impI)
    fix c assume c: "c \<in> set ?out" "c \<noteq> 92"
    show "whitelisted c \<or> c = 32"
    proof (cases "c = 32")
      case True then show ?thesis by simp
    next
      case False
      with c(1) out set_unwords [of ?ws] obtain w where w: "w \<in> set ?ws" "c \<in> set w" by auto
      with tk settled_token_shape [of w] c(2) show ?thesis by blast
    qed
  qed
  have sp: "\<forall>c\<in>set ?out. is_space c \<longrightarrow> c = 32"
  proof (intro ballI impI)
    fix c assume c: "c \<in> set ?out" "is_space c"
    have "\<not> is_space 92" by (simp add: is_space_def)
    with c chars whitelisted_not_space [of c] show "c = 32" by auto
  qed
  from ends adj chars sp show ?thesis by (simp add: adjacent_ok_def)
qed

lemma clean_str_example: "clean_str (lit ''a,b(c'') = [97, 32, 44, 32, 98, 32, 92, 40, 32, 99]"
  by (simp add: clean_str_def lit_def sub_class_def whitelisted_def strip_def is_space_def Let_def)

theorem clean_str_shape_witness:
  "clean_str (lit ''a,b(c'') = [97, 32, 44, 32, 98, 32, 92, 40, 32, 99]
   \<and> \<not> is_space (hd (clean_str (lit ''a,b(c''))) \<and> \<not> is_space (last (clean_str (lit ''a,b(c'')))
   \<and> clean_str (lit ''a,b(c'') ! 2 \<in> set (lit '',!()?'')
   \<and> clean_str (lit ''a,b(c'') ! 1 = 32 \<and> clean_str (lit ''a,b(c'') ! 3 = 32
   \<and> clean_str (lit ''a,b(c'') ! 7 \<in> set (lit '',!()?'') \<and> clean_str (lit ''a,b(c'') ! 8 = 32"
  using clean_str_shape [of "lit ''a,b(c''"] clean_str_example
  by (simp add: lit_def is_space_def)

text \<open>
  Claim C1 as stated fails on the input \<^verbatim>\<open>(a,\<close>: the output is a backslash, the
  parenthesis, a space, \<^verbatim>\<open>a\<close>, a space and the comma. The backslash is neither
  whitelisted nor a space nor a character of the input; the parenthesis has the backslash,
  not a space, on its left; the comma has no space on its right.
\<close>

theorem clean_str_counterexample:
  "clean_str (lit ''(a,'') = [92, 40, 32, 97, 32, 44]
   \<and> \<not> whitelisted 92 \<and> 92 \<notin> set (lit ''(a,'')"
  by (simp add: clean_str_def lit_def sub_class_def whitelisted_def strip_def is_space_def Let_def)

end
